theory Spec2Isabelle
  imports Main "HOL-Library.Word"
begin

section \<open>The in-memory image view of \<^verbatim>\<open>vw/Image/ImageView.h\<close>\<close>

text \<open>
  The class \<^verbatim>\<open>ImageView<PixelT>\<close> holds a reference-counted handle to a pixel
  array (\<^verbatim>\<open>boost::shared_array<PixelT> m_data\<close>), three unsigned extents, a raw
  pointer to the first pixel and three \<^verbatim>\<open>ptrdiff_t\<close> strides. The embedding keeps
  these eight fields, threads an explicit heap of reference-counted arrays through every
  operation, and returns an error value wherever the C++ dereferences a pointer that
  does not address a live array element.

  Data layout assumed: \<^verbatim>\<open>unsigned\<close> and \<^verbatim>\<open>int\<close> are 32 bits wide,
  \<^verbatim>\<open>ptrdiff_t\<close> and \<^verbatim>\<open>size_t\<close> are 64 bits wide (LP64). Strides and
  element offsets are mathematical integers; for the strides this class ever stores
  (below \<open>2 ^ 32\<close>) and 32-bit coordinates the 64-bit products cannot overflow.
  Allocation is taken to succeed (the \<^verbatim>\<open>std::bad_alloc\<close> path of \<^verbatim>\<open>new\<close> is not
  part of the model).
\<close>

subsection \<open>Machine types, pointers and pixel cells\<close>

type_synonym u32 = "32 word"   \<comment> \<open>\<^verbatim>\<open>unsigned\<close>, read by \<open>unat\<close> / \<open>uint\<close>\<close>
type_synonym cint = "32 word"  \<comment> \<open>\<^verbatim>\<open>int\<close>, read by \<open>sint\<close>\<close>
type_synonym buf_id = nat

text \<open>An array element is either a value or still indeterminate (never written since
  \<^verbatim>\<open>new PixelT[n]\<close> default-initialised it without a constructor).\<close>

datatype 'a cell = Indeterminate | Value 'a

text \<open>A \<^verbatim>\<open>PixelT*\<close>: null, or an array together with an element offset into it.\<close>

datatype ptr = Null | Ptr buf_id int

datatype error = UndefinedAccess | ArgumentErr

text \<open>What the code asks of the template parameter \<^verbatim>\<open>PixelT\<close>:
  \<^verbatim>\<open>boost::is_fundamental<PixelT>::value\<close>, the state in which \<^verbatim>\<open>new PixelT[n]\<close>
  leaves each element, and \<^verbatim>\<open>CompoundNumChannels<PixelT>::value\<close>.\<close>

record 'a pixel_traits =
  is_fundamental :: bool
  default_init :: "'a cell"
  num_channels :: u32

subsection \<open>The heap of shared arrays\<close>

text \<open>One control block per array allocated with \<^verbatim>\<open>new PixelT[n]\<close> and owned by
  \<^verbatim>\<open>boost::shared_array\<close>: the number of handles and the elements. A freed array
  is \<open>None\<close>; identifiers are never reused.\<close>

record 'a block =
  use_count :: nat
  elems :: "'a cell list"

type_synonym 'a heap = "'a block option list"

definition lookup :: "'a heap \<Rightarrow> buf_id \<Rightarrow> 'a block option" where
  "lookup h b = (if b < length h then h ! b else None)"

text \<open>\<^verbatim>\<open>boost::shared_array<PixelT> data( new PixelT[size] )\<close>: a fresh array with one handle.\<close>

definition sa_new :: "'a heap \<Rightarrow> 'a cell list \<Rightarrow> 'a heap \<times> buf_id" where
  "sa_new h xs = (h @ [Some \<lparr>use_count = 1, elems = xs\<rparr>], length h)"

text \<open>Copying a handle adds one to the count.\<close>

definition sa_acquire :: "'a heap \<Rightarrow> buf_id option \<Rightarrow> 'a heap" where
  "sa_acquire h d =
     (case d of None \<Rightarrow> h
      | Some b \<Rightarrow> (case lookup h b of None \<Rightarrow> h
          | Some blk \<Rightarrow> h[b := Some (blk\<lparr>use_count := Suc (use_count blk)\<rparr>)]))"

text \<open>Destroying or resetting a handle takes one from the count; the array is freed
  with the last handle.\<close>

definition sa_release :: "'a heap \<Rightarrow> buf_id option \<Rightarrow> 'a heap" where
  "sa_release h d =
     (case d of None \<Rightarrow> h
      | Some b \<Rightarrow> (case lookup h b of None \<Rightarrow> h
          | Some blk \<Rightarrow> if use_count blk \<le> 1 then h[b := None]
                        else h[b := Some (blk\<lparr>use_count := use_count blk - 1\<rparr>)]))"

text \<open>\<^verbatim>\<open>m_data.get()\<close>: the address of element 0, or null for an empty handle.\<close>

definition sa_get :: "buf_id option \<Rightarrow> ptr" where
  "sa_get d = (case d of None \<Rightarrow> Null | Some b \<Rightarrow> Ptr b 0)"

text \<open>Pointer arithmetic in elements, and dereferencing for reading and for writing.
  A null pointer, a freed array and an offset outside the array are undefined behaviour
  in C++; the model reports them.\<close>

definition ptr_add :: "ptr \<Rightarrow> int \<Rightarrow> ptr" where
  "ptr_add q k = (case q of Null \<Rightarrow> Null | Ptr b i \<Rightarrow> Ptr b (i + k))"

definition load :: "'a heap \<Rightarrow> ptr \<Rightarrow> error + 'a cell" where
  "load h q =
     (case q of Null \<Rightarrow> Inl UndefinedAccess
      | Ptr b i \<Rightarrow> (case lookup h b of None \<Rightarrow> Inl UndefinedAccess
          | Some blk \<Rightarrow> if 0 \<le> i \<and> i < int (length (elems blk))
                        then Inr (elems blk ! nat i) else Inl UndefinedAccess))"

definition store :: "'a heap \<Rightarrow> ptr \<Rightarrow> 'a cell \<Rightarrow> error + 'a heap" where
  "store h q x =
     (case q of Null \<Rightarrow> Inl UndefinedAccess
      | Ptr b i \<Rightarrow> (case lookup h b of None \<Rightarrow> Inl UndefinedAccess
          | Some blk \<Rightarrow> if 0 \<le> i \<and> i < int (length (elems blk))
                        then Inr (h[b := Some (blk\<lparr>elems := (elems blk)[nat i := x]\<rparr>)])
                        else Inl UndefinedAccess))"

text \<open>\<^verbatim>\<open>memset( q, 0, n*sizeof(PixelT) )\<close> on an array of a fundamental type: the \<open>n\<close>
  elements from \<open>q\<close> on become zero. With \<open>n = 0\<close> nothing is written, whatever \<open>q\<close> is.\<close>

definition memset_zero :: "('a::zero) heap \<Rightarrow> ptr \<Rightarrow> nat \<Rightarrow> error + 'a heap" where
  "memset_zero h q n =
     (if n = 0 then Inr h
      else case q of Null \<Rightarrow> Inl UndefinedAccess
      | Ptr b i \<Rightarrow> (case lookup h b of None \<Rightarrow> Inl UndefinedAccess
          | Some blk \<Rightarrow> if 0 \<le> i \<and> i + int n \<le> int (length (elems blk))
                        then Inr (h[b := Some (blk\<lparr>elems :=
                               take (nat i) (elems blk) @ replicate n (Value 0)
                                 @ drop (nat i + n) (elems blk)\<rparr>)])
                        else Inl UndefinedAccess))"

subsection \<open>The view\<close>

record view =
  m_data :: "buf_id option"
  m_cols :: u32
  m_rows :: u32
  m_planes :: u32
  m_origin :: ptr
  m_cstride :: int
  m_rstride :: int
  m_pstride :: int

text \<open>\<^verbatim>\<open>ImageView()\<close>.\<close>

definition empty_view :: view where
  "empty_view = \<lparr>m_data = None, m_cols = 0, m_rows = 0, m_planes = 0, m_origin = Null,
                 m_cstride = 0, m_rstride = 0, m_pstride = 0\<rparr>"

text \<open>\<^verbatim>\<open>ImageView( ImageView const& other )\<close>: every field is copied; copying the handle
  counts one more owner.\<close>

definition copy_construct :: "'a heap \<Rightarrow> view \<Rightarrow> 'a heap \<times> view" where
  "copy_construct h other = (sa_acquire h (m_data other), other)"

text \<open>The copy assignment operator, which C++ declares implicitly for the class (the
  templated \<^verbatim>\<open>operator=\<close> is not a copy assignment operator): every field is assigned;
  assigning the handle counts the new array once more and releases the old one.\<close>

definition copy_assign :: "'a heap \<Rightarrow> view \<Rightarrow> view \<Rightarrow> 'a heap \<times> view" where
  "copy_assign h v other = (sa_release (sa_acquire h (m_data other)) (m_data v), other)"

text \<open>The destructor releases the handle.\<close>

definition destroy :: "'a heap \<Rightarrow> view \<Rightarrow> 'a heap" where
  "destroy h v = sa_release h (m_data v)"

text \<open>\<^verbatim>\<open>reset()\<close>.\<close>

definition reset :: "'a heap \<Rightarrow> view \<Rightarrow> 'a heap \<times> view" where
  "reset h v = (sa_release h (m_data v),
     v\<lparr>m_data := None, m_cols := 0, m_rows := 0, m_planes := 0, m_origin := Null,
       m_cstride := 0, m_rstride := 0, m_pstride := 0\<rparr>)"

definition cols :: "view \<Rightarrow> u32" where "cols v = m_cols v"
definition rows :: "view \<Rightarrow> u32" where "rows v = m_rows v"
definition planes :: "view \<Rightarrow> u32" where "planes v = m_planes v"

text \<open>\<^verbatim>\<open>operator()( int col, int row )\<close> and \<^verbatim>\<open>operator()( int col, int row, int plane )\<close>:
  the address the returned reference denotes. The \<^verbatim>\<open>int\<close> arguments are converted to
  \<^verbatim>\<open>ptrdiff_t\<close> for the products, and the pointer is advanced term by term, left to right.\<close>

definition call2 :: "view \<Rightarrow> cint \<Rightarrow> cint \<Rightarrow> ptr" where
  "call2 v col row =
     ptr_add (ptr_add (m_origin v) (sint col * m_cstride v)) (sint row * m_rstride v)"

definition call3 :: "view \<Rightarrow> cint \<Rightarrow> cint \<Rightarrow> cint \<Rightarrow> ptr" where
  "call3 v col row plane =
     ptr_add (ptr_add (ptr_add (m_origin v) (sint col * m_cstride v))
                (sint row * m_rstride v)) (sint plane * m_pstride v)"

text \<open>Reading and writing through the returned reference.\<close>

definition read_pixel :: "'a heap \<Rightarrow> view \<Rightarrow> cint \<Rightarrow> cint \<Rightarrow> cint \<Rightarrow> error + 'a cell" where
  "read_pixel h v col row plane = load h (call3 v col row plane)"

definition write_pixel :: "'a heap \<Rightarrow> view \<Rightarrow> cint \<Rightarrow> cint \<Rightarrow> cint \<Rightarrow> 'a \<Rightarrow> error + 'a heap" where
  "write_pixel h v col row plane x = store h (call3 v col row plane) (Value x)"

text \<open>A sequence of writes, each through the view \<open>A\<close> or (flag set) through \<open>B\<close>.\<close>

fun write_seq ::
  "view \<Rightarrow> view \<Rightarrow> 'a heap \<Rightarrow> (bool \<times> cint \<times> cint \<times> cint \<times> 'a) list \<Rightarrow> error + 'a heap" where
  "write_seq A B h [] = Inr h"
| "write_seq A B h ((viaB, col, row, plane, x) # ws) =
     (case write_pixel h (if viaB then B else A) col row plane x of
        Inl e \<Rightarrow> Inl e
      | Inr h' \<Rightarrow> write_seq A B h' ws)"

text \<open>\<^verbatim>\<open>set_size( unsigned cols, unsigned rows, unsigned planes )\<close>. The product \<open>sz\<close> and
  the plane stride are computed in \<^verbatim>\<open>unsigned\<close> arithmetic and wrap modulo \<open>2 ^ 32\<close>.
  In the \<^verbatim>\<open>else\<close> branch the local handle \<^verbatim>\<open>data\<close> owns the new array, the assignment
  \<^verbatim>\<open>m_data = data\<close> counts a second owner and releases the old array, and \<^verbatim>\<open>data\<close>
  is destroyed at the end of the block.\<close>

definition set_size ::
  "('a::zero) pixel_traits \<Rightarrow> 'a heap \<Rightarrow> view \<Rightarrow> u32 \<Rightarrow> u32 \<Rightarrow> u32 \<Rightarrow> error + ('a heap \<times> view)" where
  "set_size tr h v c r p =
     (if c = m_cols v \<and> r = m_rows v \<and> p = m_planes v then Inr (h, v)
      else
        let sz = c * r * p;
            (h1, d) =
              (if sz = 0 then (sa_release h (m_data v), None)
               else
                 let (ha, b) = sa_new h (replicate (unat sz) (default_init tr));
                     hb = sa_release (sa_acquire ha (Some b)) (m_data v)
                 in (sa_release hb (Some b), Some b));
            v1 = v\<lparr>m_data := d, m_cols := c, m_rows := r, m_planes := p,
                   m_origin := sa_get d,
                   m_cstride := 1, m_rstride := uint c, m_pstride := uint (r * c)\<rparr>
        in if is_fundamental tr
           then (case memset_zero h1 (sa_get (m_data v1))
                        (unat (m_rows v1 * m_cols v1 * m_planes v1)) of
                   Inl e \<Rightarrow> Inl e
                 | Inr h2 \<Rightarrow> Inr (h2, v1))
           else Inr (h1, v1))"

text \<open>\<^verbatim>\<open>ImageView( unsigned cols, unsigned rows, unsigned planes )\<close>.\<close>

definition sized_view ::
  "('a::zero) pixel_traits \<Rightarrow> 'a heap \<Rightarrow> u32 \<Rightarrow> u32 \<Rightarrow> u32 \<Rightarrow> error + ('a heap \<times> view)" where
  "sized_view tr h c r p = set_size tr h empty_view c r p"

subsection \<open>Strided addressing as the specification words it\<close>

text \<open>The contract of the specification: the address of \<open>(c, r, p)\<close> is
  \<open>origin + c*col_stride + r*row_stride + p*plane_stride\<close>, one addition of the whole
  offset, on mathematical integers.\<close>

definition strided_address :: "view \<Rightarrow> int \<Rightarrow> int \<Rightarrow> int \<Rightarrow> ptr" where
  "strided_address v c r p =
     ptr_add (m_origin v) (c * m_cstride v + r * m_rstride v + p * m_pstride v)"

subsection \<open>Rasterization\<close>

text \<open>A counting loop \<^verbatim>\<open>for( i=lo; i<n; ++i ) body\<close> over a state, stopping at the
  first error.\<close>

function for_upto :: "nat \<Rightarrow> nat \<Rightarrow> (nat \<Rightarrow> 's \<Rightarrow> error + 's) \<Rightarrow> 's \<Rightarrow> error + 's" where
  "for_upto i n body s =
     (if i < n
      then (case body i s of Inl e \<Rightarrow> Inl e | Inr s' \<Rightarrow> for_upto (Suc i) n body s')
      else Inr s)"
  by pat_completeness auto
termination
  by (relation "measure (\<lambda>(i, n, body, s). n - i)") auto

declare for_upto.simps [simp del]

text \<open>Modelled from the spec: the free function \<^verbatim>\<open>vw::rasterize( src, dest )\<close> that
  \<^verbatim>\<open>ImageView::rasterize\<close> calls is declared in a header outside the sources at hand.
  Following sections 4.4 and 8 of the specification it writes every element of the sink
  exactly once, plane-major, then row-major, then column-minor, storing the producer's
  per-coordinate value at the sink's corresponding coordinate. The producer's evaluation
  may read the heap (a view does) and may fail.\<close>

definition rasterize_loop ::
  "('a heap \<Rightarrow> int \<Rightarrow> int \<Rightarrow> int \<Rightarrow> error + 'a cell) \<Rightarrow> view \<Rightarrow> 'a heap \<Rightarrow> error + 'a heap" where
  "rasterize_loop ev dest h =
     for_upto 0 (unat (m_planes dest)) (\<lambda>p.
       for_upto 0 (unat (m_rows dest)) (\<lambda>r.
         for_upto 0 (unat (m_cols dest)) (\<lambda>c h'.
           case ev h' (int c) (int r) (int p) of
             Inl e \<Rightarrow> Inl e
           | Inr x \<Rightarrow> store h' (strided_address dest (int c) (int r) (int p)) x))) h"

text \<open>The capability set a producer offers to \<^verbatim>\<open>operator=\<close>: \<^verbatim>\<open>cols()\<close>,
  \<^verbatim>\<open>rows()\<close>, \<^verbatim>\<open>planes()\<close> and \<^verbatim>\<open>rasterize( dest )\<close>.\<close>

record 'a source =
  src_cols :: u32
  src_rows :: u32
  src_planes :: u32
  src_rasterize :: "view \<Rightarrow> 'a heap \<Rightarrow> error + 'a heap"

text \<open>\<^verbatim>\<open>ImageView& operator=( ImageViewBase<SrcT> const& view )\<close>: resize, then let the
  producer rasterize into the resized view.\<close>

definition assign ::
  "('a::zero) pixel_traits \<Rightarrow> 'a heap \<Rightarrow> view \<Rightarrow> 'a source \<Rightarrow> error + ('a heap \<times> view)" where
  "assign tr h v src =
     (case set_size tr h v (src_cols src) (src_rows src) (src_planes src) of
        Inl e \<Rightarrow> Inl e
      | Inr (h1, v1) \<Rightarrow>
          (case src_rasterize src v1 h1 of Inl e \<Rightarrow> Inl e | Inr h2 \<Rightarrow> Inr (h2, v1)))"

text \<open>A producer that computes each pixel from its coordinates alone.\<close>

definition pixel_source :: "u32 \<Rightarrow> u32 \<Rightarrow> u32 \<Rightarrow> (int \<Rightarrow> int \<Rightarrow> int \<Rightarrow> 'a) \<Rightarrow> 'a source" where
  "pixel_source c r p f =
     \<lparr>src_cols = c, src_rows = r, src_planes = p,
      src_rasterize = rasterize_loop (\<lambda>h x y z. Inr (Value (f x y z)))\<rparr>"

text \<open>Modelled from the spec: a producer given by its extent and its per-coordinate
  evaluation, whose \<^verbatim>\<open>rasterize\<close> is the loop above. The evaluation reads the heap as
  it is at the moment of the call, so that a producer may be a view of some array,
  the array of the sink included.\<close>

type_synonym 'a evaluation = "'a heap \<Rightarrow> int \<Rightarrow> int \<Rightarrow> int \<Rightarrow> error + 'a cell"

definition eval_source :: "u32 \<Rightarrow> u32 \<Rightarrow> u32 \<Rightarrow> 'a evaluation \<Rightarrow> 'a source" where
  "eval_source c r p ev =
     \<lparr>src_cols = c, src_rows = r, src_planes = p, src_rasterize = rasterize_loop ev\<rparr>"

text \<open>The evaluation is defined at every coordinate of an extent; and it does not read
  the array \<open>b\<close>: no store into \<open>b\<close> changes what it yields.\<close>

definition defined_on :: "'a evaluation \<Rightarrow> 'a heap \<Rightarrow> u32 \<Rightarrow> u32 \<Rightarrow> u32 \<Rightarrow> bool" where
  "defined_on ev t c r p =
     (\<forall>x y z. 0 \<le> x \<and> x < uint c \<and> 0 \<le> y \<and> y < uint r \<and> 0 \<le> z \<and> z < uint p \<longrightarrow>
        (\<exists>val. ev t x y z = Inr val))"

definition ignores_array :: "'a evaluation \<Rightarrow> buf_id \<Rightarrow> bool" where
  "ignores_array ev b = (\<forall>t k x t'. store t (Ptr b k) x = Inr t' \<longrightarrow> ev t' = ev t)"

text \<open>\<^verbatim>\<open>ImageView::rasterize( dest )\<close>: \<^verbatim>\<open>prerasterize()\<close> returns a copy of the view by
  value, \<^verbatim>\<open>vw::rasterize\<close> reads the pixels through that copy, and the copy is destroyed
  on return.\<close>

definition view_rasterize :: "view \<Rightarrow> view \<Rightarrow> 'a heap \<Rightarrow> error + 'a heap" where
  "view_rasterize src dest h =
     (let (h1, tmp) = copy_construct h src
      in case rasterize_loop (\<lambda>h' c r p. load h' (strided_address tmp c r p)) dest h1 of
           Inl e \<Rightarrow> Inl e
         | Inr h2 \<Rightarrow> Inr (destroy h2 tmp))"

text \<open>A view as a producer: its extent and \<^verbatim>\<open>ImageView::rasterize\<close>.\<close>

definition view_source :: "view \<Rightarrow> 'a source" where
  "view_source w =
     \<lparr>src_cols = cols w, src_rows = rows w, src_planes = planes w,
      src_rasterize = view_rasterize w\<rparr>"

text \<open>\<^verbatim>\<open>V = V\<close> through \<^verbatim>\<open>operator=( ImageViewBase<SrcT> const& )\<close>: the argument is a
  reference to the assigned view itself, so the producer that rasterizes is the view as
  \<^verbatim>\<open>set_size\<close> left it.\<close>

definition assign_self ::
  "('a::zero) pixel_traits \<Rightarrow> 'a heap \<Rightarrow> view \<Rightarrow> error + ('a heap \<times> view)" where
  "assign_self tr h v =
     (case set_size tr h v (cols v) (rows v) (planes v) of
        Inl e \<Rightarrow> Inl e
      | Inr (h1, v1) \<Rightarrow>
          (case view_rasterize v1 v1 h1 of Inl e \<Rightarrow> Inl e | Inr h2 \<Rightarrow> Inr (h2, v1)))"

subsection \<open>Interoperation with \<^verbatim>\<open>vil_image_view\<close>\<close>

text \<open>The fields of a \<^verbatim>\<open>vil_image_view\<close> that the code reads or passes to its
  constructor.\<close>

record vil_image_view =
  top_left :: ptr
  ni :: u32
  nj :: u32
  nplanes :: u32
  istep :: int
  jstep :: int
  planestep :: int

text \<open>How a call of \<^verbatim>\<open>operator=( vil_image_view const& )\<close> ends: it returns, or it
  leaves with an error; either way with the heap and the view as they are at that
  moment.\<close>

datatype 'a outcome = Returned "'a heap" view | Failed error "'a heap" view

text \<open>\<^verbatim>\<open>vil_view()\<close>, with \<^verbatim>\<open>VW_ASSERT\<close> throwing its second argument when the
  condition is false.\<close>

definition vil_view :: "'a pixel_traits \<Rightarrow> view \<Rightarrow> error + vil_image_view" where
  "vil_view tr v =
     (let channels = num_channels tr
      in if \<not> (m_planes v = 1 \<or> channels = 1) then Inl ArgumentErr
         else Inr \<lparr>top_left = m_origin v, ni = m_cols v, nj = m_rows v,
                   nplanes = channels * m_planes v,
                   istep = m_cstride v * uint channels,
                   jstep = m_rstride v * uint channels,
                   planestep = (if channels = 1 then m_pstride v else 1)\<rparr>)"

text \<open>\<^verbatim>\<open>operator=( vil_image_view const& src )\<close>. The routine \<^verbatim>\<open>vil_copy_reformat\<close>
  belongs to the VXL library; it is the parameter \<open>vcopy\<close>, given the source, the
  wrapper around this view's storage and the heap.\<close>

definition assign_vil ::
  "(vil_image_view \<Rightarrow> vil_image_view \<Rightarrow> 'a heap \<Rightarrow> error + 'a heap) \<Rightarrow>
   ('a::zero) pixel_traits \<Rightarrow> 'a heap \<Rightarrow> view \<Rightarrow> vil_image_view \<Rightarrow> 'a outcome" where
  "assign_vil vcopy tr h v src =
     (let channels = num_channels tr
      in if channels \<noteq> 1 \<and> nplanes src \<noteq> channels then Failed ArgumentErr h v
         else
           (case set_size tr h v (ni src) (nj src) (if channels = 1 then nplanes src else 1) of
              Inl e \<Rightarrow> Failed e h v
            | Inr (h1, v1) \<Rightarrow>
                (case vil_view tr v1 of
                   Inl e \<Rightarrow> Failed e h1 v1
                 | Inr wrapper \<Rightarrow>
                     (case vcopy src wrapper h1 of
                        Inl e \<Rightarrow> Failed e h1 v1
                      | Inr h2 \<Rightarrow> Returned h2 v1))))"

subsection \<open>Invariants\<close>

text \<open>The requested extent has a product below \<open>2 ^ 32\<close>.\<close>

definition no_overflow :: "u32 \<Rightarrow> u32 \<Rightarrow> u32 \<Rightarrow> bool" where
  "no_overflow c r p = (unat c * unat r * unat p < 2 ^ 32)"

text \<open>What the constructors, \<^verbatim>\<open>reset\<close> and \<^verbatim>\<open>set_size\<close> establish: the origin is the
  start of the view's own array, the strides are the canonical ones (or all zero in the
  empty view), and the array is live, counted, and as long as the 32-bit product of the
  extents; there is no array exactly when that product is zero.\<close>

definition view_inv :: "'a heap \<Rightarrow> view \<Rightarrow> bool" where
  "view_inv h v =
     (m_origin v = sa_get (m_data v) \<and>
      (v = empty_view \<or>
       (m_cstride v = 1 \<and> m_rstride v = uint (m_cols v) \<and>
        m_pstride v = uint (m_rows v * m_cols v))) \<and>
      (case m_data v of
         None \<Rightarrow> m_cols v * m_rows v * m_planes v = 0
       | Some b \<Rightarrow>
           (case lookup h b of
              None \<Rightarrow> False
            | Some blk \<Rightarrow> 1 \<le> use_count blk \<and> m_cols v * m_rows v * m_planes v \<noteq> 0 \<and>
                length (elems blk) = unat (m_cols v * m_rows v * m_planes v))))"

text \<open>The views alive at some moment form a list. The array counts are right when each
  live array has as many owners as there are views holding a handle to it; together
  with the invariant of every view this is what the operations of the class maintain.\<close>

definition handles :: "view list \<Rightarrow> buf_id \<Rightarrow> nat" where
  "handles vs b = length (filter (\<lambda>v. m_data v = Some b) vs)"

definition system_inv :: "'a heap \<Rightarrow> view list \<Rightarrow> bool" where
  "system_inv h vs =
     ((\<forall>v \<in> set vs. view_inv h v) \<and>
      (\<forall>b blk. lookup h b = Some blk \<longrightarrow> use_count blk = handles vs b))"

text \<open>A pointer addresses an element of the array the view owns.\<close>

definition in_buffer :: "'a heap \<Rightarrow> view \<Rightarrow> ptr \<Rightarrow> bool" where
  "in_buffer h v q =
     (case q of Null \<Rightarrow> False
      | Ptr b i \<Rightarrow> m_data v = Some b \<and>
          (case lookup h b of None \<Rightarrow> False
           | Some blk \<Rightarrow> 0 \<le> i \<and> i < int (length (elems blk))))"

text \<open>A coordinate triple of \<^verbatim>\<open>int\<close>s lies within the extent of the view.\<close>

definition in_range :: "view \<Rightarrow> cint \<Rightarrow> cint \<Rightarrow> cint \<Rightarrow> bool" where
  "in_range v col row plane =
     (0 \<le> sint col \<and> sint col < uint (m_cols v) \<and>
      0 \<le> sint row \<and> sint row < uint (m_rows v) \<and>
      0 \<le> sint plane \<and> sint plane < uint (m_planes v))"

text \<open>The addressing invariant of one view: every in-range coordinate maps under the
  strided formula to an element of the view's own array, which has
  \<open>cols*rows*planes\<close> elements. A system addresses its buffers when its counts are
  right and each of its views whose extent has a product below \<open>2 ^ 32\<close> has that
  property.\<close>

definition addressable :: "'a heap \<Rightarrow> view \<Rightarrow> bool" where
  "addressable h v =
     ((\<forall>col row plane. in_range v col row plane \<longrightarrow>
         in_buffer h v (call3 v col row plane) \<and>
         call3 v col row plane = strided_address v (sint col) (sint row) (sint plane)) \<and>
      (\<forall>b blk. m_data v = Some b \<and> lookup h b = Some blk \<longrightarrow>
         length (elems blk) = unat (m_cols v) * unat (m_rows v) * unat (m_planes v)))"

definition addresses_buffers :: "'a heap \<Rightarrow> view list \<Rightarrow> bool" where
  "addresses_buffers h vs =
     (system_inv h vs \<and>
      (\<forall>v \<in> set vs. no_overflow (m_cols v) (m_rows v) (m_planes v) \<longrightarrow> addressable h v))"

text \<open>The offset of a coordinate in the canonical layout.\<close>

definition linear_index :: "view \<Rightarrow> int \<Rightarrow> int \<Rightarrow> int \<Rightarrow> int" where
  "linear_index v x y z = x + y * uint (m_cols v) + z * (uint (m_rows v) * uint (m_cols v))"

text \<open>For the proof of the rasterization loop: the cell that a producer with the values
  \<open>w\<close> puts at offset \<open>j\<close> of a canonical \<open>C \<times> R \<times> P\<close> array, and the loop invariant
  that the first \<open>k\<close> elements of array \<open>b\<close> (of length \<open>n\<close>) have been written.\<close>

definition cell_at :: "(int \<Rightarrow> int \<Rightarrow> int \<Rightarrow> 'a cell) \<Rightarrow> nat \<Rightarrow> nat \<Rightarrow> nat \<Rightarrow> 'a cell" where
  "cell_at w C R j = w (int (j mod C)) (int (j div C mod R)) (int (j div (C * R)))"

definition filled :: "buf_id \<Rightarrow> (nat \<Rightarrow> 'a cell) \<Rightarrow> nat \<Rightarrow> nat \<Rightarrow> 'a heap \<Rightarrow> bool" where
  "filled b g n k t =
     (case lookup t b of None \<Rightarrow> False
      | Some blk \<Rightarrow> length (elems blk) = n \<and> (\<forall>j<k. elems blk ! j = g j))"

text \<open>A handle is empty or names an array that has been allocated.\<close>

definition handle_ok :: "'a heap \<Rightarrow> buf_id option \<Rightarrow> bool" where
  "handle_ok h d = (case d of None \<Rightarrow> True | Some b \<Rightarrow> b < length h)"

subsection \<open>Example element types and views\<close>

text \<open>A 32-bit integer pixel (a fundamental type), a plain struct around one such
  integer (not fundamental, no constructor), and a three-channel pixel class whose
  default constructor zeroes it; a view record with a negative column stride and a zero
  row stride over a three-element array.\<close>

definition int32_pixel :: "32 word pixel_traits" where
  "int32_pixel = \<lparr>is_fundamental = True, default_init = Indeterminate, num_channels = 1\<rparr>"

definition struct_pixel :: "32 word pixel_traits" where
  "struct_pixel = \<lparr>is_fundamental = False, default_init = Indeterminate, num_channels = 1\<rparr>"

definition rgb_pixel :: "32 word pixel_traits" where
  "rgb_pixel = \<lparr>is_fundamental = False, default_init = Value 0, num_channels = 3\<rparr>"

definition mirrored_view :: view where
  "mirrored_view = \<lparr>m_data = Some 0, m_cols = 3, m_rows = 2, m_planes = 1, m_origin = Ptr 0 2,
                    m_cstride = - 1, m_rstride = 0, m_pstride = 0\<rparr>"

text \<open>The view that \<^verbatim>\<open>set_size(65536,65536,1)\<close> leaves, a \<open>4 \<times> 3 \<times> 1\<close> view with
  the value 7 written at \<open>(2,1)\<close> and its array with \<open>n\<close> owners, and a one-plane foreign
  image.\<close>

definition wrapped_view :: view where
  "wrapped_view = \<lparr>m_data = None, m_cols = 65536, m_rows = 65536, m_planes = 1,
                   m_origin = Null, m_cstride = 1, m_rstride = 65536, m_pstride = 0\<rparr>"

definition small_view :: view where
  "small_view = \<lparr>m_data = Some 0, m_cols = 4, m_rows = 3, m_planes = 1, m_origin = Ptr 0 0,
                 m_cstride = 1, m_rstride = 4, m_pstride = 12\<rparr>"

definition small_heap :: "nat \<Rightarrow> 32 word heap" where
  "small_heap n = [Some \<lparr>use_count = n, elems = (replicate 12 (Value 0))[6 := Value 7]\<rparr>]"

definition grey_vil :: vil_image_view where
  "grey_vil = \<lparr>top_left = Null, ni = 4, nj = 3, nplanes = 1, istep = 1, jstep = 4, planestep = 12\<rparr>"


text \<open>The view that \<^verbatim>\<open>set_size(2147483649,2,1)\<close> leaves on a two-element array.\<close>

definition overflow_view :: view where
  "overflow_view = \<lparr>m_data = Some 0, m_cols = 2147483649, m_rows = 2, m_planes = 1,
                    m_origin = Ptr 0 0, m_cstride = 1, m_rstride = 2147483649, m_pstride = 2\<rparr>"




section \<open>Auxiliary facts\<close>

lemma length_sa_release [simp]: "length (sa_release h d) = length h"
  by (simp add: sa_release_def split: option.splits)

lemma length_sa_acquire [simp]: "length (sa_acquire h d) = length h"
  by (simp add: sa_acquire_def split: option.splits)

lemma view_inv_handle_ok: "view_inv h v \<Longrightarrow> handle_ok h (m_data v)"
  by (auto simp: view_inv_def handle_ok_def lookup_def split: option.splits if_splits)

lemma sa_release_append:
  "handle_ok h d \<Longrightarrow> sa_release (h @ [x]) d = sa_release h d @ [x]"
  by (auto simp: handle_ok_def sa_release_def lookup_def nth_append list_update_append split: option.splits)

lemma sa_acquire_last:
  "sa_acquire (g @ [Some \<lparr>use_count = k, elems = xs\<rparr>]) (Some (length g))
     = g @ [Some \<lparr>use_count = Suc k, elems = xs\<rparr>]"
  by (simp add: sa_acquire_def lookup_def)

lemma sa_release_last:
  "length g = n \<Longrightarrow> sa_release (g @ [Some \<lparr>use_count = Suc (Suc k), elems = xs\<rparr>]) (Some n)
     = g @ [Some \<lparr>use_count = Suc k, elems = xs\<rparr>]"
  by (auto simp: sa_release_def lookup_def)

lemma sa_release_commute_new:
  assumes "handle_ok h d"
  shows "sa_release (sa_release (sa_acquire (h @ [Some \<lparr>use_count = Suc 0, elems = xs\<rparr>]) (Some (length h))) d) (Some (length h))
     = sa_release h d @ [Some \<lparr>use_count = Suc 0, elems = xs\<rparr>]"
proof -
  have a: "sa_acquire (h @ [Some \<lparr>use_count = Suc 0, elems = xs\<rparr>]) (Some (length h))
        = h @ [Some \<lparr>use_count = Suc (Suc 0), elems = xs\<rparr>]"
    by (rule sa_acquire_last)
  have b: "sa_release (h @ [Some \<lparr>use_count = Suc (Suc 0), elems = xs\<rparr>]) d
        = sa_release h d @ [Some \<lparr>use_count = Suc (Suc 0), elems = xs\<rparr>]"
    using assms by (rule sa_release_append)
  have c: "sa_release (sa_release h d @ [Some \<lparr>use_count = Suc (Suc 0), elems = xs\<rparr>]) (Some (length h))
       = sa_release h d @ [Some \<lparr>use_count = Suc 0, elems = xs\<rparr>]"
    by (rule sa_release_last) simp
  show ?thesis by (simp only: a b c)
qed

lemma memset_zero_fresh:
  "length g = n0 \<Longrightarrow> m \<noteq> 0 \<Longrightarrow>
   memset_zero (g @ [Some \<lparr>use_count = Suc 0, elems = replicate m x\<rparr>]) (Ptr n0 0) m
     = Inr (g @ [Some \<lparr>use_count = Suc 0, elems = replicate m (Value 0)\<rparr>])"
  by (auto simp: memset_zero_def lookup_def)

lemma word3_comm: "(r::u32) * c * p = c * r * p"
  by (simp add: mult.commute)

lemma set_size_same:
  "c = m_cols v \<and> r = m_rows v \<and> p = m_planes v \<Longrightarrow> set_size tr h v c r p = Inr (h, v)"
  by (simp add: set_size_def)

lemma set_size_zero:
  assumes "\<not> (c = m_cols v \<and> r = m_rows v \<and> p = m_planes v)" "c * r * p = 0"
  shows "set_size tr h v c r p =
     Inr (sa_release h (m_data v),
          v\<lparr>m_data := None, m_cols := c, m_rows := r, m_planes := p, m_origin := Null,
            m_cstride := 1, m_rstride := uint c, m_pstride := uint (r * c)\<rparr>)"
  unfolding set_size_def if_not_P [OF assms(1)]
  using assms(2) by (simp add: Let_def sa_get_def memset_zero_def word3_comm)

lemma set_size_alloc:
  assumes "\<not> (c = m_cols v \<and> r = m_rows v \<and> p = m_planes v)" "c * r * p \<noteq> 0"
    and "handle_ok h (m_data v)"
  shows "set_size tr h v c r p =
     Inr (sa_release h (m_data v) @
            [Some \<lparr>use_count = Suc 0,
                   elems = replicate (unat (c * r * p))
                             (if is_fundamental tr then Value 0 else default_init tr)\<rparr>],
          v\<lparr>m_data := Some (length h), m_cols := c, m_rows := r, m_planes := p,
            m_origin := Ptr (length h) 0,
            m_cstride := 1, m_rstride := uint c, m_pstride := uint (r * c)\<rparr>)"
proof -
  have nz: "unat (c * r * p) \<noteq> 0" using assms(2) by (simp add: unat_eq_0)
  show ?thesis
    unfolding set_size_def if_not_P [OF assms(1)]
    using assms(2,3) nz
    by (simp add: Let_def sa_new_def sa_release_commute_new sa_get_def
        word3_comm memset_zero_fresh)
qed

lemma lookup_append_old: "b < length h \<Longrightarrow> lookup (h @ xs) b = lookup h b"
  by (simp add: lookup_def nth_append)

lemma lookup_append_new: "length g = n \<Longrightarrow> lookup (g @ [x]) n = x"
  by (auto simp: lookup_def)

lemma lookup_fresh: "lookup h (length h) = None"
  by (simp add: lookup_def)

lemma lookup_Some_less: "lookup h b = Some blk \<Longrightarrow> b < length h"
  by (simp add: lookup_def split: if_splits)

lemma lookup_sa_release_other:
  "d \<noteq> Some b \<Longrightarrow> lookup (sa_release h d) b = lookup h b"
  by (auto simp: sa_release_def lookup_def split: option.splits)

lemma lookup_sa_release_shared:
  "lookup h b = Some blk \<Longrightarrow> 2 \<le> use_count blk \<Longrightarrow>
   lookup (sa_release h (Some b)) b = Some (blk\<lparr>use_count := use_count blk - 1\<rparr>)"
  by (auto simp: sa_release_def lookup_def split: if_splits)

lemma lookup_sa_acquire_same:
  "lookup h b = Some blk \<Longrightarrow>
   lookup (sa_acquire h (Some b)) b = Some (blk\<lparr>use_count := Suc (use_count blk)\<rparr>)"
  by (auto simp: sa_acquire_def lookup_def split: if_splits)

lemma unat_prod3: "unat ((c::u32) * r * p) = (unat c * unat r * unat p) mod 2 ^ 32"
  by (simp add: unat_word_ariths mod_mult_left_eq)

lemma no_overflow_prod: "no_overflow c r p \<Longrightarrow> unat (c * r * p) = unat c * unat r * unat p"
  by (simp add: unat_prod3 no_overflow_def)

lemma view_inv_empty: "view_inv h empty_view"
  by (simp add: view_inv_def empty_view_def sa_get_def)

lemma copy_construct_inv:
  assumes "view_inv h v"
  shows "view_inv (fst (copy_construct h v)) v \<and> snd (copy_construct h v) = v"
  using assms
  by (auto simp: copy_construct_def view_inv_def lookup_sa_acquire_same split: option.splits)

lemma linear_index_bound:
  fixes x y z C R P :: int
  assumes "0 \<le> x" "x < C" "0 \<le> y" "y < R" "0 \<le> z" "z < P"
  shows "0 \<le> x + y * C + z * (R * C) \<and> x + y * C + z * (R * C) < C * R * P"
proof -
  have C: "0 < C" and R: "0 < R" using assms by linarith+
  have a: "y * C \<le> (R - 1) * C" using assms C by (intro mult_right_mono) auto
  have b: "z * (R * C) \<le> (P - 1) * (R * C)" using assms C R by (intro mult_right_mono) auto
  have "x + y * C + z * (R * C) \<le> (C - 1) + (R - 1) * C + (P - 1) * (R * C)"
    using a b assms by linarith
  also have "\<dots> = C * R * P - 1" by (simp add: algebra_simps)
  finally have up: "x + y * C + z * (R * C) < C * R * P" by simp
  have "0 \<le> y * C" "0 \<le> z * (R * C)" using assms C R by simp_all
  then show ?thesis using up assms by simp
qed

lemma set_size_result:
  assumes "view_inv h v"
  shows "\<exists>h' v'. set_size tr h v c r p = Inr (h', v') \<and> view_inv h' v' \<and>
           m_cols v' = c \<and> m_rows v' = r \<and> m_planes v' = p \<and>
           (m_data v' = None \<longrightarrow> length h' = length h)"
proof (cases "c = m_cols v \<and> r = m_rows v \<and> p = m_planes v")
  case True
  then show ?thesis using assms by (simp add: set_size_same)
next
  case False
  show ?thesis
  proof (cases "c * r * p = 0")
    case True
    show ?thesis
      using True by (simp add: set_size_zero [OF False True] view_inv_def sa_get_def)
  next
    case nz: False
    have ok: "handle_ok h (m_data v)" using assms by (rule view_inv_handle_ok)
    show ?thesis
      using nz by (simp add: set_size_alloc [OF False nz ok] view_inv_def sa_get_def lookup_append_new)
  qed
qed

lemma view_eqI:
  "m_data v = m_data w \<Longrightarrow> m_cols v = m_cols w \<Longrightarrow> m_rows v = m_rows w \<Longrightarrow>
   m_planes v = m_planes w \<Longrightarrow> m_origin v = m_origin w \<Longrightarrow> m_cstride v = m_cstride w \<Longrightarrow>
   m_rstride v = m_rstride w \<Longrightarrow> m_pstride v = m_pstride w \<Longrightarrow> v = (w::view)"
  by simp

lemma word3_zero: "(c::u32) = 0 \<or> r = 0 \<or> p = 0 \<Longrightarrow> c * r * p = 0"
  by auto

lemma call3_strided: "call3 v col row plane = strided_address v (sint col) (sint row) (sint plane)"
  by (cases "m_origin v") (simp_all add: call3_def strided_address_def ptr_add_def add.assoc)

lemma no_overflow_rc:
  assumes "no_overflow c r p" "p \<noteq> 0"
  shows "uint (r * c) = uint r * uint c"
proof -
  have p: "1 \<le> unat p" using assms(2) by (simp add: unat_eq_0 Suc_le_eq unat_gt_0)
  have a: "unat r * unat c * unat p < 2 ^ 32"
    using assms(1) by (simp add: no_overflow_def mult.commute mult.left_commute)
  have "unat r * unat c * 1 \<le> unat r * unat c * unat p" using p by (rule mult_le_mono2)
  then have "unat r * unat c \<le> unat r * unat c * unat p" by simp
  then have "unat r * unat c < 2 ^ 32" using a by (rule le_less_trans)
  then have "unat (r * c) = unat r * unat c" by (simp add: unat_word_ariths)
  then have "int (unat (r * c)) = int (unat r) * int (unat c)" by simp
  then show ?thesis by simp
qed

lemma strided_in_buffer:
  assumes inv: "view_inv h v" and no: "no_overflow (m_cols v) (m_rows v) (m_planes v)"
    and x: "0 \<le> x" "x < uint (m_cols v)" and y: "0 \<le> y" "y < uint (m_rows v)"
    and z: "0 \<le> z" "z < uint (m_planes v)"
  shows "\<exists>b blk. m_data v = Some b \<and> m_origin v = Ptr b 0 \<and> lookup h b = Some blk \<and>
           length (elems blk) = unat (m_cols v) * unat (m_rows v) * unat (m_planes v) \<and>
           strided_address v x y z = Ptr b (linear_index v x y z) \<and>
           0 \<le> linear_index v x y z \<and> linear_index v x y z < int (length (elems blk))"
proof -
  have cne: "m_cols v \<noteq> 0" and rne: "m_rows v \<noteq> 0" and pne: "m_planes v \<noteq> 0"
    using x y z by auto
  have ne: "v \<noteq> empty_view" using cne by (auto simp: empty_view_def)
  have prod: "unat (m_cols v * m_rows v * m_planes v) = unat (m_cols v) * unat (m_rows v) * unat (m_planes v)"
    using no by (rule no_overflow_prod)
  have "unat (m_cols v) * unat (m_rows v) * unat (m_planes v) \<noteq> 0"
    using cne rne pne by (simp add: unat_eq_0)
  then have wnz: "m_cols v * m_rows v * m_planes v \<noteq> 0"
    using prod by (metis unat_0)
  obtain b where d: "m_data v = Some b"
    using inv wnz by (auto simp: view_inv_def split: option.splits)
  obtain blk where l: "lookup h b = Some blk"
    and len: "length (elems blk) = unat (m_cols v * m_rows v * m_planes v)"
    using inv d by (auto simp: view_inv_def split: option.splits)
  have org: "m_origin v = Ptr b 0" using inv d by (simp add: view_inv_def sa_get_def)
  have st: "m_cstride v = 1" "m_rstride v = uint (m_cols v)"
    "m_pstride v = uint (m_rows v) * uint (m_cols v)"
    using inv ne no_overflow_rc [OF no pne] by (simp_all add: view_inv_def)
  have addr: "strided_address v x y z = Ptr b (linear_index v x y z)"
    by (simp add: strided_address_def org st ptr_add_def linear_index_def)
  have bnd: "0 \<le> linear_index v x y z \<and>
      linear_index v x y z < uint (m_cols v) * uint (m_rows v) * uint (m_planes v)"
    unfolding linear_index_def using x y z by (intro linear_index_bound) auto
  have "int (length (elems blk)) = uint (m_cols v) * uint (m_rows v) * uint (m_planes v)"
    using len prod by simp
  then show ?thesis using d org l len prod addr bnd by simp
qed

lemma in_range_in_buffer:
  assumes inv: "view_inv h v" and no: "no_overflow (m_cols v) (m_rows v) (m_planes v)"
    and rng: "in_range v col row plane"
  shows "\<exists>b blk. m_data v = Some b \<and> m_origin v = Ptr b 0 \<and> lookup h b = Some blk \<and>
           length (elems blk) = unat (m_cols v) * unat (m_rows v) * unat (m_planes v) \<and>
           call3 v col row plane = Ptr b (linear_index v (sint col) (sint row) (sint plane)) \<and>
           0 \<le> linear_index v (sint col) (sint row) (sint plane) \<and>
           linear_index v (sint col) (sint row) (sint plane) < int (length (elems blk))"
  using strided_in_buffer [OF inv no, of "sint col" "sint row" "sint plane"] rng
  by (simp add: in_range_def call3_strided)

lemma word3_nonzero:
  assumes "no_overflow c r p" "c \<noteq> 0 \<and> r \<noteq> 0 \<and> p \<noteq> 0"
  shows "c * r * p \<noteq> 0"
proof -
  have "unat c * unat r * unat p \<noteq> 0" using assms(2) by (simp add: unat_eq_0)
  then have "unat (c * r * p) \<noteq> 0" using no_overflow_prod [OF assms(1)] by simp
  then show ?thesis by (metis unat_0)
qed

lemma set_size_Inr_planes:
  "set_size tr h v c r p = Inr (h', v') \<Longrightarrow> m_cols v' = c \<and> m_rows v' = r \<and> m_planes v' = p"
  by (cases "c = m_cols v \<and> r = m_rows v \<and> p = m_planes v")
     (auto simp: set_size_def Let_def split: if_splits prod.splits sum.splits)

lemma lookup_update:
  "lookup (h[b := x]) b' = (if b' = b \<and> b < length h then x else lookup h b')"
  by (auto simp: lookup_def)

lemma load_release_shared:
  assumes "lookup h b = Some blk" "2 \<le> use_count blk"
  shows "load (sa_release h (Some b)) q = load h q"
proof (cases q)
  case Null
  then show ?thesis by (simp add: load_def)
next
  case (Ptr b' i)
  show ?thesis
  proof (cases "b' = b")
    case True
    then show ?thesis
      using Ptr assms by (simp add: load_def lookup_sa_release_shared)
  next
    case False
    then show ?thesis
      using Ptr by (simp add: load_def lookup_sa_release_other)
  qed
qed

lemma load_append:
  assumes "q = Null \<or> (\<exists>b i. q = Ptr b i \<and> b < length h)"
  shows "load (h @ xs) q = load h q"
  using assms by (auto simp: load_def lookup_append_old)

lemma copy_assign_inv:
  assumes "view_inv h A"
  shows "view_inv (fst (copy_assign h v A)) A \<and> snd (copy_assign h v A) = A"
proof (cases "m_data A")
  case None
  then show ?thesis using assms by (simp add: copy_assign_def view_inv_def)
next
  case (Some b)
  then obtain blk where l: "lookup h b = Some blk" and c: "1 \<le> use_count blk"
    using assms by (auto simp: view_inv_def split: option.splits)
  have a: "lookup (sa_acquire h (Some b)) b = Some (blk\<lparr>use_count := Suc (use_count blk)\<rparr>)"
    using l by (rule lookup_sa_acquire_same)
  have "\<exists>blk'. lookup (sa_release (sa_acquire h (Some b)) (m_data v)) b = Some blk' \<and>
          1 \<le> use_count blk' \<and> elems blk' = elems blk"
  proof (cases "m_data v = Some b")
    case True
    show ?thesis
      using lookup_sa_release_shared [OF a] c True by simp
  next
    case False
    then show ?thesis using a by (simp add: lookup_sa_release_other)
  qed
  then show ?thesis
    using assms Some l by (auto simp: copy_assign_def view_inv_def)
qed

lemma store_inv:
  assumes "store h q x = Inr h'" "view_inv h w"
  shows "view_inv h' w"
proof (cases q)
  case Null
  then show ?thesis using assms by (simp add: store_def)
next
  case (Ptr b i)
  then obtain blk where l: "lookup h b = Some blk"
    and h': "h' = h[b := Some (blk\<lparr>elems := (elems blk)[nat i := x]\<rparr>)]"
    using assms(1) by (auto simp: store_def split: option.splits if_splits)
  have bl: "b < length h" using l by (rule lookup_Some_less)
  show ?thesis
    using assms(2) l bl unfolding h'
    by (auto simp: view_inv_def lookup_update split: option.splits)
qed

lemma store_load_same:
  assumes "lookup h b = Some blk" "0 \<le> i" "i < int (length (elems blk))"
  shows "\<exists>h'. store h (Ptr b i) x = Inr h' \<and> load h' (Ptr b i) = Inr x \<and> length h' = length h"
proof -
  have bl: "b < length h" using assms(1) by (rule lookup_Some_less)
  show ?thesis
    using assms bl by (simp add: store_def load_def lookup_update)
qed

lemma write_pixel_ok:
  assumes inv: "view_inv h v" and no: "no_overflow (m_cols v) (m_rows v) (m_planes v)"
    and rng: "in_range v col row plane"
  shows "\<exists>h'. write_pixel h v col row plane x = Inr h' \<and>
           read_pixel h' v col row plane = Inr (Value x) \<and>
           (\<forall>w. view_inv h w \<longrightarrow> view_inv h' w)"
proof -
  obtain b blk where l: "lookup h b = Some blk"
    and a: "call3 v col row plane = Ptr b (linear_index v (sint col) (sint row) (sint plane))"
    and lo: "0 \<le> linear_index v (sint col) (sint row) (sint plane)"
    and hi: "linear_index v (sint col) (sint row) (sint plane) < int (length (elems blk))"
    using in_range_in_buffer [OF inv no rng] by auto
  obtain h' where s: "store h (call3 v col row plane) (Value x) = Inr h'"
    and ld: "load h' (call3 v col row plane) = Inr (Value x)"
    using store_load_same [OF l lo hi, of "Value x"] a by auto
  have "\<forall>w. view_inv h w \<longrightarrow> view_inv h' w" using store_inv [OF s] by blast
  then show ?thesis using s ld by (simp add: write_pixel_def read_pixel_def)
qed

lemma write_seq_ok:
  assumes "view_inv h v" "no_overflow (m_cols v) (m_rows v) (m_planes v)"
    and "\<forall>(viaB, col, row, plane, x) \<in> set ws. in_range v col row plane"
  shows "\<exists>h'. write_seq v v h ws = Inr h' \<and> view_inv h' v"
  using assms
proof (induction ws arbitrary: h)
  case Nil
  then show ?case by simp
next
  case (Cons w ws)
  obtain viaB col row plane x where w: "w = (viaB, col, row, plane, x)" by (cases w)
  have rng: "in_range v col row plane" using Cons.prems(3) w by simp
  obtain h1 where h1: "write_pixel h v col row plane x = Inr h1" and inv1: "view_inv h1 v"
    using write_pixel_ok [OF Cons.prems(1,2) rng, of x] Cons.prems(1) by blast
  have "\<exists>h'. write_seq v v h1 ws = Inr h' \<and> view_inv h' v"
    using Cons.IH [OF inv1 Cons.prems(2)] Cons.prems(3) by simp
  then show ?case using h1 w by simp
qed

lemma small_example_reached:
  "set_size int32_pixel [] empty_view 4 3 1 =
     Inr ([Some \<lparr>use_count = 1, elems = replicate 12 (Value 0)\<rparr>], small_view) \<and>
   write_pixel [Some \<lparr>use_count = 1, elems = replicate 12 (Value 0)\<rparr>] small_view 2 1 0 7
     = Inr (small_heap 1) \<and>
   copy_construct (small_heap 1) small_view = (small_heap 2, small_view)"
  by code_simp

lemma small_example_inv: "view_inv (small_heap (Suc n)) small_view"
  by (simp add: view_inv_def small_heap_def small_view_def sa_get_def lookup_def)

lemma small_example_no_overflow:
  "no_overflow (m_cols small_view) (m_rows small_view) (m_planes small_view)"
  by (simp add: no_overflow_def small_view_def)

lemma for_upto_rule:
  assumes "I i s" "i \<le> n"
    and step: "\<And>j t. i \<le> j \<Longrightarrow> j < n \<Longrightarrow> I j t \<Longrightarrow> \<exists>t'. body j t = Inr t' \<and> I (Suc j) t'"
  shows "\<exists>s'. for_upto i n body s = Inr s' \<and> I n s'"
  using assms
proof (induction "n - i" arbitrary: i s)
  case 0
  then have "i = n" by simp
  then show ?case using "0.prems"(1) by (subst for_upto.simps) simp
next
  case (Suc d)
  then have lt: "i < n" by simp
  obtain t where t: "body i s = Inr t" and It: "I (Suc i) t"
    using Suc.prems(3) [of i s] lt Suc.prems(1) by auto
  have d: "d = n - Suc i" using Suc.hyps(2) by simp
  have "\<exists>s'. for_upto (Suc i) n body t = Inr s' \<and> I n s'"
  proof (rule Suc.hyps(1) [OF d It])
    show "Suc i \<le> n" using lt by simp
    show "\<exists>t'. body j u = Inr t' \<and> I (Suc j) t'" if "Suc i \<le> j" "j < n" "I j u" for j u
      using Suc.prems(3) [of j u] that by simp
  qed
  then show ?case using lt t by (subst for_upto.simps) simp
qed

lemma nat_linear_bound:
  fixes x y z C R P :: nat
  assumes "x < C" "y < R" "z < P"
  shows "x + y * C + z * (R * C) < C * R * P"
proof -
  have "y + z * R < R + z * R" using assms(2) by simp
  also have "\<dots> = Suc z * R" by simp
  also have "\<dots> \<le> P * R" using assms(3) by (intro mult_le_mono1) simp
  finally have a: "Suc (y + z * R) \<le> P * R" by simp
  have "x + (y + z * R) * C < C + (y + z * R) * C" using assms(1) by simp
  also have "\<dots> = Suc (y + z * R) * C" by simp
  also have "\<dots> \<le> (P * R) * C" using a by (rule mult_le_mono1)
  finally show ?thesis by (simp add: algebra_simps)
qed

lemma cell_at_linear:
  assumes "x < C" "y < R"
  shows "cell_at w C R (x + y * C + z * (R * C)) = w (int x) (int y) (int z)"
proof -
  have e: "x + y * C + z * (R * C) = x + (y + z * R) * C" by (simp add: algebra_simps)
  have m: "(x + (y + z * R) * C) mod C = x" using assms(1) by simp
  have d: "(x + (y + z * R) * C) div C = y + z * R" using assms(1) by simp
  have dm: "(y + z * R) mod R = y" using assms(2) by simp
  have "(x + (y + z * R) * C) div (C * R) = (y + z * R) div R"
    using d by (simp add: div_mult2_eq)
  also have "\<dots> = z" using assms(2) by simp
  finally have dd: "(x + (y + z * R) * C) div (C * R) = z" .
  show ?thesis unfolding cell_at_def e m d dm dd ..
qed

lemma linear_index_nat:
  "linear_index v (int x) (int y) (int z)
     = int (x + y * unat (m_cols v) + z * (unat (m_rows v) * unat (m_cols v)))"
  by (simp add: linear_index_def)

lemma filled_step:
  assumes f: "filled b g n k t" and k: "k < n" and inv: "view_inv t v"
  shows "\<exists>t'. store t (Ptr b (int k)) (g k) = Inr t' \<and> filled b g n (Suc k) t' \<and> view_inv t' v"
proof -
  obtain blk where l: "lookup t b = Some blk" and len: "length (elems blk) = n"
    and old: "\<forall>j<k. elems blk ! j = g j"
    using f by (auto simp: filled_def split: option.splits)
  have bl: "b < length t" using l by (rule lookup_Some_less)
  define t' where "t' = t[b := Some (blk\<lparr>elems := (elems blk)[k := g k]\<rparr>)]"
  have s: "store t (Ptr b (int k)) (g k) = Inr t'"
    using l len k by (simp add: store_def t'_def)
  have "filled b g n (Suc k) t'"
    using bl len old k by (auto simp: filled_def t'_def lookup_update nth_list_update less_Suc_eq)
  then show ?thesis using s store_inv [OF s inv] by blast
qed

lemma load_nat:
  "lookup h b = Some blk \<Longrightarrow> k < length (elems blk) \<Longrightarrow> load h (Ptr b (int k)) = Inr (elems blk ! k)"
  by (simp add: load_def)

lemma rasterize_eval:
  fixes ev :: "'a evaluation"
  assumes inv: "view_inv h v" and no: "no_overflow (m_cols v) (m_rows v) (m_planes v)"
    and df: "defined_on ev h (m_cols v) (m_rows v) (m_planes v)"
    and ig: "\<forall>b. m_data v = Some b \<longrightarrow> ignores_array ev b"
  shows "\<exists>h'. rasterize_loop ev v h = Inr h' \<and> view_inv h' v \<and> ev h' = ev h \<and>
           (\<forall>col row plane. in_range v col row plane \<longrightarrow>
              read_pixel h' v col row plane = ev h (sint col) (sint row) (sint plane))"
proof -
  define C R P where "C = unat (m_cols v)" and "R = unat (m_rows v)" and "P = unat (m_planes v)"
  define N where "N = C * R * P"
  define w where "w = (\<lambda>x y z. case ev h x y z of Inr c \<Rightarrow> c | Inl e \<Rightarrow> Indeterminate)"
  define g where "g = cell_at w C R"
  define K :: "nat \<Rightarrow> 'a heap \<Rightarrow> bool" where
    "K k t = (view_inv t v \<and> ev t = ev h \<and> (\<forall>b. m_data v = Some b \<longrightarrow> filled b g N k t))" for k t
  define body where "body = (\<lambda>z y x (t :: 'a heap).
      case ev t (int x) (int y) (int z) of
        Inl e \<Rightarrow> Inl e
      | Inr c \<Rightarrow> store t (strided_address v (int x) (int y) (int z)) c)"
  have uC: "uint (m_cols v) = int C" and uR: "uint (m_rows v) = int R"
    and uP: "uint (m_planes v) = int P"
    by (simp_all add: C_def R_def P_def)
  have evw: "ev h (int x) (int y) (int z) = Inr (w (int x) (int y) (int z))"
    if "x < C" "y < R" "z < P" for x y z
  proof -
    have "\<exists>val. ev h (int x) (int y) (int z) = Inr val"
      using df that uC uR uP unfolding defined_on_def by simp
    then show ?thesis by (auto simp: w_def)
  qed
  have prod: "unat (m_cols v * m_rows v * m_planes v) = N"
    using no_overflow_prod [OF no] by (simp add: N_def C_def R_def P_def)
  have K0: "K 0 h"
    using inv prod by (auto simp: K_def filled_def view_inv_def split: option.splits)
  have step: "\<exists>t'. body z y x t = Inr t' \<and> K (Suc (x + y * C + z * (R * C))) t'"
    if x: "x < C" and y: "y < R" and z: "z < P" and k: "K (x + y * C + z * (R * C)) t"
    for x y z t
  proof -
    have it: "view_inv t v" and et: "ev t = ev h" using k by (simp_all add: K_def)
    obtain b where d: "m_data v = Some b"
      and a: "strided_address v (int x) (int y) (int z) = Ptr b (linear_index v (int x) (int y) (int z))"
      using strided_in_buffer [OF it no, of "int x" "int y" "int z"] x y z uC uR uP by auto
    have a': "strided_address v (int x) (int y) (int z) = Ptr b (int (x + y * C + z * (R * C)))"
      using a by (simp add: linear_index_nat C_def R_def)
    have fl: "filled b g N (x + y * C + z * (R * C)) t" using k d by (simp add: K_def)
    have lt: "x + y * C + z * (R * C) < N" unfolding N_def using x y z by (rule nat_linear_bound)
    have gk: "g (x + y * C + z * (R * C)) = w (int x) (int y) (int z)"
      unfolding g_def using x y by (rule cell_at_linear)
    obtain t' where s: "store t (Ptr b (int (x + y * C + z * (R * C)))) (g (x + y * C + z * (R * C))) = Inr t'"
      and fl': "filled b g N (Suc (x + y * C + z * (R * C))) t'" and it': "view_inv t' v"
      using filled_step [OF fl lt it] by blast
    have "ev t' = ev t" using ig d s unfolding ignores_array_def by blast
    then have "K (Suc (x + y * C + z * (R * C))) t'" using fl' it' d et by (simp add: K_def)
    then show ?thesis using s gk a' et evw [OF x y z] by (simp add: body_def)
  qed
  have inner: "\<exists>t'. for_upto 0 C (body z y) t = Inr t' \<and> K (Suc y * C + z * (R * C)) t'"
    if y: "y < R" and z: "z < P" and k: "K (y * C + z * (R * C)) t" for y z t
  proof -
    have "\<exists>t'. for_upto 0 C (body z y) t = Inr t' \<and> K (C + y * C + z * (R * C)) t'"
    proof (rule for_upto_rule [where I = "\<lambda>x. K (x + y * C + z * (R * C))"])
      show "K (0 + y * C + z * (R * C)) t" using k by simp
      show "0 \<le> C" by simp
      show "\<exists>t'. body z y j u = Inr t' \<and> K (Suc j + y * C + z * (R * C)) t'"
        if "0 \<le> j" "j < C" "K (j + y * C + z * (R * C)) u" for j u
        using step [OF that(2) y z that(3)] by simp
    qed
    then show ?thesis by simp
  qed
  have middle: "\<exists>t'. for_upto 0 R (\<lambda>y. for_upto 0 C (body z y)) t = Inr t' \<and> K (Suc z * (R * C)) t'"
    if z: "z < P" and k: "K (z * (R * C)) t" for z t
  proof -
    have "\<exists>t'. for_upto 0 R (\<lambda>y. for_upto 0 C (body z y)) t = Inr t' \<and> K (R * C + z * (R * C)) t'"
    proof (rule for_upto_rule [where I = "\<lambda>y. K (y * C + z * (R * C))"])
      show "K (0 * C + z * (R * C)) t" using k by simp
      show "0 \<le> R" by simp
      show "\<exists>t'. for_upto 0 C (body z j) u = Inr t' \<and> K (Suc j * C + z * (R * C)) t'"
        if "0 \<le> j" "j < R" "K (j * C + z * (R * C)) u" for j u
        using inner [OF that(2) z that(3)] .
    qed
    then show ?thesis by simp
  qed
  have outer: "\<exists>t'. for_upto 0 P (\<lambda>z. for_upto 0 R (\<lambda>y. for_upto 0 C (body z y))) h = Inr t' \<and>
                  K (P * (R * C)) t'"
  proof (rule for_upto_rule [where I = "\<lambda>z. K (z * (R * C))"])
    show "K (0 * (R * C)) h" using K0 by simp
    show "0 \<le> P" by simp
    show "\<exists>t'. for_upto 0 R (\<lambda>y. for_upto 0 C (body j y)) u = Inr t' \<and> K (Suc j * (R * C)) t'"
      if "0 \<le> j" "j < P" "K (j * (R * C)) u" for j u
      using middle [OF that(2,3)] .
  qed
  then obtain h' where run: "rasterize_loop ev v h = Inr h'" and kn: "K N h'"
    by (auto simp: rasterize_loop_def body_def C_def R_def P_def N_def mult.commute mult.left_commute)
  have inv': "view_inv h' v" and ev': "ev h' = ev h" using kn by (simp_all add: K_def)
  have rd: "read_pixel h' v col row plane = ev h (sint col) (sint row) (sint plane)"
    if rng: "in_range v col row plane" for col row plane
  proof -
    define x y z where "x = nat (sint col)" and "y = nat (sint row)" and "z = nat (sint plane)"
    have xyz: "sint col = int x" "sint row = int y" "sint plane = int z" "x < C" "y < R" "z < P"
      using rng uC uR uP by (auto simp: in_range_def x_def y_def z_def nat_less_iff)
    obtain b blk where d: "m_data v = Some b" and l: "lookup h' b = Some blk"
      and a: "call3 v col row plane = Ptr b (linear_index v (sint col) (sint row) (sint plane))"
      using in_range_in_buffer [OF inv' no rng] by auto
    define k where "k = x + y * C + z * (R * C)"
    have a': "call3 v col row plane = Ptr b (int k)"
      using a xyz(1-3) by (simp add: linear_index_nat C_def R_def k_def)
    have lt: "k < N" unfolding N_def k_def using xyz(4-6) by (rule nat_linear_bound)
    have fl: "filled b g N N h'" using kn d by (simp add: K_def)
    have len: "length (elems blk) = N" and el: "elems blk ! k = g k"
      using fl l lt by (simp_all add: filled_def)
    have gk: "g k = w (int x) (int y) (int z)"
      unfolding g_def k_def using xyz(4,5) by (rule cell_at_linear)
    have "load h' (Ptr b (int k)) = Inr (elems blk ! k)"
      using l lt len by (intro load_nat) simp_all
    then show ?thesis
      using a' el gk xyz(1-3) evw [OF xyz(4-6)] by (simp add: read_pixel_def)
  qed
  show ?thesis using run inv' ev' rd by blast
qed

lemma rasterize_pure:
  fixes f :: "int \<Rightarrow> int \<Rightarrow> int \<Rightarrow> 'a"
  assumes inv: "view_inv h v" and no: "no_overflow (m_cols v) (m_rows v) (m_planes v)"
  shows "\<exists>h'. rasterize_loop (\<lambda>h x y z. Inr (Value (f x y z))) v h = Inr h' \<and> view_inv h' v \<and>
           (\<forall>col row plane. in_range v col row plane \<longrightarrow>
              read_pixel h' v col row plane = Inr (Value (f (sint col) (sint row) (sint plane))))"
proof -
  have df: "defined_on (\<lambda>(t :: 'a heap) x y z. Inr (Value (f x y z))) h (m_cols v) (m_rows v) (m_planes v)"
    by (simp add: defined_on_def)
  have ig: "\<forall>b. m_data v = Some b \<longrightarrow> ignores_array (\<lambda>(t :: 'a heap) x y z. Inr (Value (f x y z))) b"
    by (simp add: ignores_array_def)
  show ?thesis using rasterize_eval [OF inv no df ig] by blast
qed

lemma set_size_wrapped:
  "set_size int32_pixel [] empty_view 65536 65536 1 = Inr ([], wrapped_view)"
  by code_simp

lemma rasterize_loop_first_fail:
  assumes "0 < unat (m_planes d)" "0 < unat (m_rows d)" "0 < unat (m_cols d)"
    and "(case ev h 0 0 0 of Inl e \<Rightarrow> Inl e | Inr x \<Rightarrow> store h (strided_address d 0 0 0) x) = Inl e"
  shows "rasterize_loop ev d h = Inl e"
  using assms by (auto simp: rasterize_loop_def for_upto.simps [of 0] split: sum.splits)

lemma store_load_id:
  assumes "load h q = Inr x"
  shows "store h q x = Inr h"
proof (cases q)
  case Null
  then show ?thesis using assms by (simp add: load_def)
next
  case (Ptr b i)
  then obtain blk where l: "lookup h b = Some blk" and lo: "0 \<le> i"
    and hi: "i < int (length (elems blk))" and x: "x = elems blk ! nat i"
    using assms by (auto simp: load_def split: option.splits if_splits)
  have bl: "b < length h" and hb: "h ! b = Some blk"
    using l by (auto simp: lookup_def split: if_splits)
  have "blk\<lparr>elems := (elems blk)[nat i := elems blk ! nat i]\<rparr> = blk" by simp
  then have "h[b := Some (blk\<lparr>elems := (elems blk)[nat i := x]\<rparr>)] = h"
    using hb x by (simp add: list_update_same_conv bl)
  then show ?thesis using Ptr l lo hi by (simp add: store_def)
qed

lemma acquire_release_id:
  assumes "view_inv h v"
  shows "sa_release (sa_acquire h (m_data v)) (m_data v) = h"
proof (cases "m_data v")
  case None
  then show ?thesis by (simp add: sa_acquire_def sa_release_def)
next
  case (Some b)
  then obtain blk where l: "lookup h b = Some blk" and c: "1 \<le> use_count blk"
    using assms by (auto simp: view_inv_def split: option.splits)
  have bl: "b < length h" and hb: "h ! b = Some blk"
    using l by (auto simp: lookup_def split: if_splits)
  have "blk\<lparr>use_count := use_count blk\<rparr> = blk" by simp
  then show ?thesis
    using Some l bl hb c
    by (simp add: sa_acquire_def sa_release_def lookup_update list_update_same_conv)
qed

lemma less_unat_int: "x < unat (w::u32) \<Longrightarrow> 0 \<le> int x \<and> int x < uint w"
  by (metis of_nat_0_le_iff of_nat_less_iff uint_nat)

lemma rasterize_self:
  assumes inv: "view_inv h v" and no: "no_overflow (m_cols v) (m_rows v) (m_planes v)"
  shows "rasterize_loop (\<lambda>h' c r p. load h' (strided_address v c r p)) v h = Inr h"
proof -
  define body where "body = (\<lambda>z y x (t :: 'a heap).
      case load t (strided_address v (int x) (int y) (int z)) of
        Inl e \<Rightarrow> Inl e
      | Inr c \<Rightarrow> store t (strided_address v (int x) (int y) (int z)) c)"
  have step: "body z y x h = Inr h"
    if x: "x < unat (m_cols v)" and y: "y < unat (m_rows v)" and z: "z < unat (m_planes v)"
    for x y z
  proof -
    obtain b blk where l: "lookup h b = Some blk"
      and a: "strided_address v (int x) (int y) (int z) = Ptr b (linear_index v (int x) (int y) (int z))"
      and lo: "0 \<le> linear_index v (int x) (int y) (int z)"
      and hi: "linear_index v (int x) (int y) (int z) < int (length (elems blk))"
      using strided_in_buffer [OF inv no, of "int x" "int y" "int z"]
        less_unat_int [OF x] less_unat_int [OF y] less_unat_int [OF z]
      by auto
    have "\<exists>c. load h (strided_address v (int x) (int y) (int z)) = Inr c"
      using a l lo hi by (simp add: load_def)
    then obtain c where c: "load h (strided_address v (int x) (int y) (int z)) = Inr c" ..
    show ?thesis using c store_load_id [OF c] by (simp add: body_def)
  qed
  have inner: "\<exists>t'. for_upto 0 (unat (m_cols v)) (body z y) h = Inr t' \<and> t' = h"
    if y: "y < unat (m_rows v)" and z: "z < unat (m_planes v)" for y z
  proof (rule for_upto_rule [where I = "\<lambda>x t. t = h"])
    show "\<exists>t'. body z y j u = Inr t' \<and> t' = h" if "j < unat (m_cols v)" "u = h" for j u
      using step [OF that(1) y z] that(2) by simp
  qed simp_all
  have middle: "\<exists>t'. for_upto 0 (unat (m_rows v)) (\<lambda>y. for_upto 0 (unat (m_cols v)) (body z y)) h
                   = Inr t' \<and> t' = h"
    if z: "z < unat (m_planes v)" for z
  proof (rule for_upto_rule [where I = "\<lambda>y t. t = h"])
    show "\<exists>t'. for_upto 0 (unat (m_cols v)) (body z j) u = Inr t' \<and> t' = h"
      if "j < unat (m_rows v)" "u = h" for j u
      using inner [OF that(1) z] that(2) by simp
  qed simp_all
  have "\<exists>t'. for_upto 0 (unat (m_planes v))
          (\<lambda>z. for_upto 0 (unat (m_rows v)) (\<lambda>y. for_upto 0 (unat (m_cols v)) (body z y))) h
             = Inr t' \<and> t' = h"
  proof (rule for_upto_rule [where I = "\<lambda>z t. t = h"])
    show "\<exists>t'. for_upto 0 (unat (m_rows v)) (\<lambda>y. for_upto 0 (unat (m_cols v)) (body j y)) u
             = Inr t' \<and> t' = h"
      if "j < unat (m_planes v)" "u = h" for j u
      using middle [OF that(1)] that(2) by simp
  qed simp_all
  then show ?thesis by (simp add: rasterize_loop_def body_def)
qed

lemma handles_append: "handles (xs @ ys) b = handles xs b + handles ys b"
  by (simp add: handles_def)

lemma handles_single: "handles [v] b = (if m_data v = Some b then 1 else 0)"
  by (simp add: handles_def)

lemma handles_update:
  assumes "i < length vs"
  shows "handles (vs[i := w]) b + (if m_data (vs ! i) = Some b then 1 else 0)
           = handles vs b + (if m_data w = Some b then 1 else 0)"
proof -
  have a: "vs = take i vs @ [vs ! i] @ drop (Suc i) vs"
    using assms by (simp add: id_take_nth_drop [symmetric])
  have b: "vs[i := w] = take i vs @ [w] @ drop (Suc i) vs"
    using assms by (simp add: upd_conv_take_nth_drop)
  have "handles vs b = handles (take i vs) b + handles [vs ! i] b + handles (drop (Suc i) vs) b"
    by (subst a) (simp only: handles_append add.assoc)
  moreover have "handles (vs[i := w]) b = handles (take i vs) b + handles [w] b + handles (drop (Suc i) vs) b"
    by (subst b) (simp only: handles_append add.assoc)
  ultimately show ?thesis by (simp add: handles_single)
qed

lemma handles_pos: "v \<in> set vs \<Longrightarrow> m_data v = Some b \<Longrightarrow> 1 \<le> handles vs b"
proof -
  assume "v \<in> set vs" "m_data v = Some b"
  then have "v \<in> set (filter (\<lambda>v. m_data v = Some b) vs)" by simp
  then have "0 < length (filter (\<lambda>v. m_data v = Some b) vs)" by (rule length_pos_if_in_set)
  then show ?thesis unfolding handles_def by linarith
qed

lemma handles_two:
  assumes "i < length vs" "j < length vs" "i \<noteq> j"
    and "m_data (vs ! i) = Some b" "m_data (vs ! j) = Some b"
  shows "2 \<le> handles vs b"
proof -
  have "(vs[i := empty_view]) ! j = vs ! j" using assms(3) by simp
  moreover have "j < length (vs[i := empty_view])" using assms(2) by simp
  ultimately have "vs ! j \<in> set (vs[i := empty_view])" by (metis nth_mem)
  then have "1 \<le> handles (vs[i := empty_view]) b" using assms(5) by (rule handles_pos)
  moreover have "handles (vs[i := empty_view]) b + 1 = handles vs b"
    using handles_update [OF assms(1), of empty_view b] assms(4) by (simp add: empty_view_def)
  ultimately show ?thesis by simp
qed

lemma lookup_release:
  "lookup (sa_release h (Some b)) b' =
     (if b' = b then (case lookup h b of None \<Rightarrow> None
                      | Some blk \<Rightarrow> if use_count blk \<le> 1 then None
                                    else Some (blk\<lparr>use_count := use_count blk - 1\<rparr>))
      else lookup h b')"
  by (auto simp: sa_release_def lookup_def split: option.splits)

lemma lookup_acquire:
  "lookup (sa_acquire h (Some b)) b' =
     (if b' = b then (case lookup h b of None \<Rightarrow> None
                      | Some blk \<Rightarrow> Some (blk\<lparr>use_count := Suc (use_count blk)\<rparr>))
      else lookup h b')"
  by (auto simp: sa_acquire_def lookup_def split: option.splits)

lemma lookup_snoc:
  "lookup (h @ [x]) b = (if b < length h then lookup h b else if b = length h then x else None)"
  by (auto simp: lookup_def nth_append)

lemma view_inv_cong:
  assumes "view_inv h w"
    and "\<And>b blk. m_data w = Some b \<Longrightarrow> lookup h b = Some blk \<Longrightarrow>
           \<exists>blk'. lookup h' b = Some blk' \<and> 1 \<le> use_count blk' \<and>
                  length (elems blk') = length (elems blk)"
  shows "view_inv h' w"
proof (cases "m_data w")
  case None
  then show ?thesis using assms(1) by (simp add: view_inv_def)
next
  case (Some b)
  then obtain blk where l: "lookup h b = Some blk"
    using assms(1) by (auto simp: view_inv_def split: option.splits)
  obtain blk' where "lookup h' b = Some blk'" "1 \<le> use_count blk'"
    "length (elems blk') = length (elems blk)"
    using assms(2) [OF Some l] by blast
  then show ?thesis using assms(1) Some l by (simp add: view_inv_def)
qed

lemma in_set_update:
  assumes "u \<in> set (vs[i := w])"
  shows "u = w \<or> (\<exists>j. j < length vs \<and> j \<noteq> i \<and> u = vs ! j)"
proof -
  obtain j where j: "j < length (vs[i := w])" and u: "u = (vs[i := w]) ! j"
    using assms by (auto simp: in_set_conv_nth)
  show ?thesis
  proof (cases "j = i")
    case True
    then show ?thesis using j u by simp
  next
    case False
    then show ?thesis using j u by auto
  qed
qed

lemma system_inv_release:
  assumes sys: "system_inv h vs" and i: "i < length vs" and w: "m_data w = None"
    and iw: "view_inv (sa_release h (m_data (vs ! i))) w"
  shows "system_inv (sa_release h (m_data (vs ! i))) (vs[i := w])"
proof (cases "m_data (vs ! i)")
  case None
  have hd: "handles (vs[i := w]) b = handles vs b" for b
    using handles_update [OF i, of w b] None w by simp
  have "\<forall>u \<in> set (vs[i := w]). view_inv h u"
  proof
    fix u assume "u \<in> set (vs[i := w])"
    then have "u = w \<or> u \<in> set vs" using in_set_update [of u vs i w] by auto
    then show "view_inv h u" using sys iw None by (auto simp: system_inv_def sa_release_def)
  qed
  then show ?thesis using sys None hd by (simp add: system_inv_def sa_release_def)
next
  case (Some b)
  have vi: "view_inv h (vs ! i)" using sys i by (simp add: system_inv_def)
  then obtain blk where l: "lookup h b = Some blk"
    using Some by (auto simp: view_inv_def split: option.splits)
  have cnt: "use_count blk = handles vs b" using sys l by (simp add: system_inv_def)
  have hb: "handles (vs[i := w]) b + 1 = handles vs b"
    using handles_update [OF i, of w b] Some w by simp
  have ho: "handles (vs[i := w]) b' = handles vs b'" if "b' \<noteq> b" for b'
    using handles_update [OF i, of w b'] Some w that by simp
  have views: "\<forall>u \<in> set (vs[i := w]). view_inv (sa_release h (Some b)) u"
  proof
    fix u assume "u \<in> set (vs[i := w])"
    then consider "u = w" | j where "j < length vs" "j \<noteq> i" "u = vs ! j"
      using in_set_update [of u vs i w] by blast
    then show "view_inv (sa_release h (Some b)) u"
    proof cases
      case 1
      then show ?thesis using iw Some by simp
    next
      case 2
      have vu: "view_inv h u" using sys 2 by (simp add: system_inv_def)
      show ?thesis
      proof (rule view_inv_cong [OF vu])
        fix b' blk'
        assume d: "m_data u = Some b'" and l': "lookup h b' = Some blk'"
        show "\<exists>blk''. lookup (sa_release h (Some b)) b' = Some blk'' \<and> 1 \<le> use_count blk'' \<and>
                length (elems blk'') = length (elems blk')"
        proof (cases "b' = b")
          case True
          have "2 \<le> handles vs b"
            using handles_two [OF i 2(1) 2(2) [symmetric] Some] d 2(3) True by simp
          then show ?thesis using True l l' cnt by (simp add: lookup_release)
        next
          case False
          have "1 \<le> use_count blk'"
            using vu d l' by (simp add: view_inv_def)
          then show ?thesis using False l' by (simp add: lookup_release)
        qed
      qed
    qed
  qed
  have counts: "use_count blk' = handles (vs[i := w]) b'"
    if "lookup (sa_release h (Some b)) b' = Some blk'" for b' blk'
  proof (cases "b' = b")
    case True
    then show ?thesis using that l cnt hb by (auto simp: lookup_release split: if_splits)
  next
    case False
    then show ?thesis using that sys ho by (simp add: lookup_release system_inv_def)
  qed
  show ?thesis using views counts Some by (simp add: system_inv_def)
qed

lemma system_fresh_unreferenced:
  assumes "system_inv g us"
  shows "handles us (length g) = 0"
proof -
  have "m_data u \<noteq> Some (length g)" if "u \<in> set us" for u
  proof
    assume d: "m_data u = Some (length g)"
    have "view_inv g u" using assms that by (simp add: system_inv_def)
    then show False using d by (simp add: view_inv_def lookup_fresh)
  qed
  then show ?thesis by (simp add: handles_def)
qed

lemma system_inv_alloc:
  assumes sys: "system_inv g us" and i: "i < length us" and none: "m_data (us ! i) = None"
    and d: "m_data w = Some (length g)"
    and iw: "view_inv (g @ [Some \<lparr>use_count = Suc 0, elems = xs\<rparr>]) w"
  shows "system_inv (g @ [Some \<lparr>use_count = Suc 0, elems = xs\<rparr>]) (us[i := w])"
proof -
  let ?g = "g @ [Some \<lparr>use_count = Suc 0, elems = xs\<rparr>]"
  have hn: "handles (us[i := w]) (length g) = 1"
    using handles_update [OF i, of w "length g"] none d system_fresh_unreferenced [OF sys] by simp
  have ho: "handles (us[i := w]) b = handles us b" if "b \<noteq> length g" for b
    using handles_update [OF i, of w b] none d that by simp
  have views: "\<forall>u \<in> set (us[i := w]). view_inv ?g u"
  proof
    fix u assume "u \<in> set (us[i := w])"
    then have "u = w \<or> u \<in> set us" using in_set_update [of u us i w] by auto
    then show "view_inv ?g u"
    proof
      assume "u = w" then show ?thesis using iw by simp
    next
      assume "u \<in> set us"
      then have vu: "view_inv g u" using sys by (simp add: system_inv_def)
      show ?thesis
      proof (rule view_inv_cong [OF vu])
        fix b blk assume "m_data u = Some b" and l: "lookup g b = Some blk"
        have "b < length g" using l by (rule lookup_Some_less)
        moreover have "1 \<le> use_count blk" using vu \<open>m_data u = Some b\<close> l by (simp add: view_inv_def)
        ultimately show "\<exists>blk'. lookup ?g b = Some blk' \<and> 1 \<le> use_count blk' \<and>
                length (elems blk') = length (elems blk)"
          using l by (simp add: lookup_append_old)
      qed
    qed
  qed
  have counts: "use_count blk = handles (us[i := w]) b" if "lookup ?g b = Some blk" for b blk
  proof (cases "b < length g")
    case True
    then show ?thesis using that sys ho by (simp add: lookup_snoc system_inv_def)
  next
    case False
    then show ?thesis using that hn by (auto simp: lookup_snoc split: if_splits)
  qed
  show ?thesis using views counts by (simp add: system_inv_def)
qed

lemma set_size_system:
  assumes sys: "system_inv h vs" and i: "i < length vs"
  shows "\<exists>h' v'. set_size tr h (vs ! i) c r p = Inr (h', v') \<and> system_inv h' (vs[i := v']) \<and>
           view_inv h' v' \<and> m_cols v' = c \<and> m_rows v' = r \<and> m_planes v' = p"
proof -
  let ?v = "vs ! i"
  have inv: "view_inv h ?v" using sys i by (simp add: system_inv_def)
  obtain h' v' where s: "set_size tr h ?v c r p = Inr (h', v')" and inv': "view_inv h' v'"
    and ext: "m_cols v' = c" "m_rows v' = r" "m_planes v' = p"
    using set_size_result [OF inv, of tr c r p] by auto
  have "system_inv h' (vs[i := v'])"
  proof (cases "c = m_cols ?v \<and> r = m_rows ?v \<and> p = m_planes ?v")
    case True
    then have "h' = h" "v' = ?v" using s by (simp_all add: set_size_same)
    then show ?thesis using sys by simp
  next
    case False
    show ?thesis
    proof (cases "c * r * p = 0")
      case True
      have e: "h' = sa_release h (m_data ?v)" "m_data v' = None"
        using s by (auto simp: set_size_zero [OF False True])
      show ?thesis
        unfolding e(1) using sys i e(2) inv' [unfolded e(1)] by (rule system_inv_release)
    next
      case nz: False
      have ok: "handle_ok h (m_data ?v)" using inv by (rule view_inv_handle_ok)
      define xs :: "'a cell list" where
        "xs = replicate (unat (c * r * p)) (if is_fundamental tr then Value 0 else default_init tr)"
      have e: "h' = sa_release h (m_data ?v) @ [Some \<lparr>use_count = Suc 0, elems = xs\<rparr>]"
        "m_data v' = Some (length h)"
        using s by (auto simp: set_size_alloc [OF False nz ok] xs_def)
      have r: "system_inv (sa_release h (m_data ?v)) (vs[i := empty_view])"
        using sys i by (rule system_inv_release) (simp_all add: empty_view_def view_inv_def sa_get_def)
      have "system_inv (sa_release h (m_data ?v) @ [Some \<lparr>use_count = Suc 0, elems = xs\<rparr>])
              ((vs[i := empty_view])[i := v'])"
        using r
      proof (rule system_inv_alloc)
        show "i < length (vs[i := empty_view])" using i by simp
        show "m_data ((vs[i := empty_view]) ! i) = None" using i by (simp add: empty_view_def)
        show "m_data v' = Some (length (sa_release h (m_data ?v)))" using e(2) by simp
        show "view_inv (sa_release h (m_data ?v) @ [Some \<lparr>use_count = Suc 0, elems = xs\<rparr>]) v'"
          using inv' e(1) by simp
      qed
      then show ?thesis using e(1) by simp
    qed
  qed
  then show ?thesis using s inv' ext by blast
qed

lemma copy_construct_system:
  assumes sys: "system_inv h vs" and i: "i < length vs"
  shows "system_inv (sa_acquire h (m_data (vs ! i))) (vs @ [vs ! i])"
proof (cases "m_data (vs ! i)")
  case None
  have "handles (vs @ [vs ! i]) b = handles vs b" for b
    using None by (simp add: handles_append handles_single)
  then show ?thesis using sys i None by (simp add: system_inv_def sa_acquire_def)
next
  case (Some b)
  have vi: "view_inv h (vs ! i)" using sys i by (simp add: system_inv_def)
  then obtain blk where l: "lookup h b = Some blk"
    using Some by (auto simp: view_inv_def split: option.splits)
  have views: "\<forall>u \<in> set (vs @ [vs ! i]). view_inv (sa_acquire h (Some b)) u"
  proof
    fix u assume "u \<in> set (vs @ [vs ! i])"
    then have "u \<in> set vs" using i by auto
    then have vu: "view_inv h u" using sys by (simp add: system_inv_def)
    show "view_inv (sa_acquire h (Some b)) u"
    proof (rule view_inv_cong [OF vu])
      fix b' blk' assume d: "m_data u = Some b'" and l': "lookup h b' = Some blk'"
      have "1 \<le> use_count blk'" using vu d l' by (simp add: view_inv_def)
      then show "\<exists>blk''. lookup (sa_acquire h (Some b)) b' = Some blk'' \<and> 1 \<le> use_count blk'' \<and>
                length (elems blk'') = length (elems blk')"
        using l' by (auto simp: lookup_acquire)
    qed
  qed
  have counts: "use_count blk' = handles (vs @ [vs ! i]) b'"
    if "lookup (sa_acquire h (Some b)) b' = Some blk'" for b' blk'
    using that sys Some l
    by (auto simp: lookup_acquire system_inv_def handles_append handles_single split: if_splits)
  show ?thesis using views counts Some by (simp add: system_inv_def)
qed

lemma system_inv_move_last:
  assumes sys: "system_inv h (us[i := empty_view] @ [u])" and i: "i < length us"
  shows "system_inv h (us[i := u])"
proof -
  have il: "i < length (us[i := empty_view])" using i by simp
  have hd: "handles (us[i := u]) b = handles (us[i := empty_view] @ [u]) b" for b
    using handles_update [OF il, of u b] i by (simp add: handles_append handles_single empty_view_def)
  have "\<forall>w \<in> set (us[i := u]). view_inv h w"
  proof
    fix w assume "w \<in> set (us[i := u])"
    then consider "w = u" | j where "j < length us" "j \<noteq> i" "w = us ! j"
      using in_set_update [of w us i u] by blast
    then show "view_inv h w"
    proof cases
      case 1
      then show ?thesis using sys by (simp add: system_inv_def)
    next
      case 2
      then have "w = (us[i := empty_view]) ! j" "j < length (us[i := empty_view])" by simp_all
      then have "w \<in> set (us[i := empty_view])" by (metis nth_mem)
      then show ?thesis using sys by (simp add: system_inv_def)
    qed
  qed
  then show ?thesis using sys hd by (simp add: system_inv_def)
qed

lemma copy_assign_system:
  assumes sys: "system_inv h vs" and i: "i < length vs" and j: "j < length vs"
  shows "system_inv (fst (copy_assign h (vs ! i) (vs ! j))) (vs[i := snd (copy_assign h (vs ! i) (vs ! j))])"
proof -
  let ?h1 = "sa_acquire h (m_data (vs ! j))"
  let ?us = "vs @ [vs ! j]"
  have s1: "system_inv ?h1 ?us" using sys j by (rule copy_construct_system)
  have i': "i < length ?us" using i by simp
  have ui: "?us ! i = vs ! i" using i by (simp add: nth_append)
  have s2: "system_inv (sa_release ?h1 (m_data (?us ! i))) (?us[i := empty_view])"
    using s1 i' by (rule system_inv_release) (simp_all add: empty_view_def view_inv_def sa_get_def)
  have "?us[i := empty_view] = vs[i := empty_view] @ [vs ! j]"
    using i by (simp add: list_update_append)
  then have "system_inv (sa_release ?h1 (m_data (vs ! i))) (vs[i := empty_view] @ [vs ! j])"
    using s2 ui by simp
  then have "system_inv (sa_release ?h1 (m_data (vs ! i))) (vs[i := vs ! j])"
    using i by (rule system_inv_move_last)
  then show ?thesis by (simp add: copy_assign_def)
qed

lemma reset_system:
  assumes sys: "system_inv h vs" and i: "i < length vs"
  shows "system_inv (fst (reset h (vs ! i))) (vs[i := snd (reset h (vs ! i))])"
proof -
  have e: "snd (reset h (vs ! i)) = empty_view" by (simp add: reset_def empty_view_def)
  have "system_inv (sa_release h (m_data (vs ! i))) (vs[i := empty_view])"
    using sys i by (rule system_inv_release) (simp_all add: empty_view_def view_inv_def sa_get_def)
  then show ?thesis using e by (simp add: reset_def)
qed

lemma store_system:
  assumes s: "store h q x = Inr h'" and sys: "system_inv h vs"
  shows "system_inv h' vs"
proof (cases q)
  case Null
  then show ?thesis using s by (simp add: store_def)
next
  case (Ptr b k)
  then obtain blk where l: "lookup h b = Some blk"
    and h': "h' = h[b := Some (blk\<lparr>elems := (elems blk)[nat k := x]\<rparr>)]"
    using s by (auto simp: store_def split: option.splits if_splits)
  have bl: "b < length h" using l by (rule lookup_Some_less)
  have "\<forall>v \<in> set vs. view_inv h' v" using sys store_inv [OF s] by (simp add: system_inv_def)
  moreover have "use_count blk' = handles vs b'" if "lookup h' b' = Some blk'" for b' blk'
    using that sys l bl unfolding h' by (auto simp: lookup_update system_inv_def split: if_splits)
  ultimately show ?thesis by (simp add: system_inv_def)
qed

lemma for_upto_preserves:
  assumes run: "for_upto i n body s = Inr s'" and start: "Q s"
    and step: "\<And>j t t'. body j t = Inr t' \<Longrightarrow> Q t \<Longrightarrow> Q t'"
  shows "Q s'"
  using run start
proof (induction "n - i" arbitrary: i s)
  case 0
  then have "s' = s" by (subst (asm) for_upto.simps) simp
  then show ?case using "0.prems"(2) by simp
next
  case (Suc d)
  then have lt: "i < n" by simp
  obtain t where t: "body i s = Inr t" and r: "for_upto (Suc i) n body t = Inr s'"
    using Suc.prems(1) lt by (subst (asm) for_upto.simps) (auto split: sum.splits)
  have d: "d = n - Suc i" using Suc.hyps(2) by simp
  have "Q t" using step [OF t Suc.prems(2)] .
  then show ?case using Suc.hyps(1) [OF d r] by blast
qed

lemma rasterize_loop_system:
  assumes run: "rasterize_loop ev d h = Inr h'" and sys: "system_inv h vs"
  shows "system_inv h' vs"
proof (rule for_upto_preserves [where Q = "\<lambda>t. system_inv t vs", OF run [unfolded rasterize_loop_def] sys])
  fix p t t'
  assume rp: "for_upto 0 (unat (m_rows d))
        (\<lambda>r. for_upto 0 (unat (m_cols d))
              (\<lambda>c h'. case ev h' (int c) (int r) (int p) of
                         Inl e \<Rightarrow> Inl e
                       | Inr x \<Rightarrow> store h' (strided_address d (int c) (int r) (int p)) x)) t = Inr t'"
    and st: "system_inv t vs"
  show "system_inv t' vs"
  proof (rule for_upto_preserves [where Q = "\<lambda>t. system_inv t vs", OF rp st])
    fix r u u'
    assume rc: "for_upto 0 (unat (m_cols d))
              (\<lambda>c h'. case ev h' (int c) (int r) (int p) of
                         Inl e \<Rightarrow> Inl e
                       | Inr x \<Rightarrow> store h' (strided_address d (int c) (int r) (int p)) x) u = Inr u'"
      and su: "system_inv u vs"
    show "system_inv u' vs"
    proof (rule for_upto_preserves [where Q = "\<lambda>t. system_inv t vs", OF rc su])
      fix c w w'
      assume "(case ev w (int c) (int r) (int p) of
                 Inl e \<Rightarrow> Inl e
               | Inr x \<Rightarrow> store w (strided_address d (int c) (int r) (int p)) x) = Inr w'"
        and "system_inv w vs"
      then show "system_inv w' vs" by (auto split: sum.splits intro: store_system)
    qed
  qed
qed

lemma assign_system:
  assumes sys: "system_inv h vs" and i: "i < length vs" and no: "no_overflow c r p"
  shows "\<exists>h' v'. assign tr h (vs ! i) (pixel_source c r p f) = Inr (h', v') \<and>
           system_inv h' (vs[i := v']) \<and> m_cols v' = c \<and> m_rows v' = r \<and> m_planes v' = p"
proof -
  obtain h1 v1 where s: "set_size tr h (vs ! i) c r p = Inr (h1, v1)"
    and sys1: "system_inv h1 (vs[i := v1])" and inv1: "view_inv h1 v1"
    and ext: "m_cols v1 = c" "m_rows v1 = r" "m_planes v1 = p"
    using set_size_system [OF sys i, of tr c r p] by auto
  have no1: "no_overflow (m_cols v1) (m_rows v1) (m_planes v1)" using no ext by simp
  obtain h2 where run: "rasterize_loop (\<lambda>h x y z. Inr (Value (f x y z))) v1 h1 = Inr h2"
    using rasterize_pure [OF inv1 no1, of f] by blast
  have "system_inv h2 (vs[i := v1])" using run sys1 by (rule rasterize_loop_system)
  then show ?thesis using s run ext by (simp add: assign_def pixel_source_def)
qed

lemma system_inv_default:
  assumes "system_inv h vs"
  shows "system_inv h (vs @ [empty_view])"
proof -
  have "handles (vs @ [empty_view]) b = handles vs b" for b
    by (simp add: handles_append handles_single empty_view_def)
  then show ?thesis using assms view_inv_empty [of h] by (simp add: system_inv_def)
qed

lemma resize_alias_frame:
  assumes invA: "view_inv h A" and invB: "view_inv h B"
    and dA: "m_data A = Some b" and dB: "m_data B = Some b"
    and l: "lookup h b = Some blk" and cnt: "2 \<le> use_count blk"
    and s: "set_size tr h A c r p = Inr (h', A')"
  shows "(\<forall>col row plane. read_pixel h' B col row plane = read_pixel h B col row plane) \<and>
         (\<exists>blk'. lookup h' b = Some blk' \<and> elems blk' = elems blk) \<and>
         (\<not> (c = m_cols A \<and> r = m_rows A \<and> p = m_planes A) \<longrightarrow> m_data A' \<noteq> Some b)"
proof (cases "c = m_cols A \<and> r = m_rows A \<and> p = m_planes A")
  case True
  then show ?thesis using s l by (simp add: set_size_same)
next
  case False
  have bl: "b < length h" using l by (rule lookup_Some_less)
  have oB: "m_origin B = Ptr b 0" using invB dB by (simp add: view_inv_def sa_get_def)
  have rel: "lookup (sa_release h (Some b)) b = Some (blk\<lparr>use_count := use_count blk - 1\<rparr>)"
    using l cnt by (rule lookup_sa_release_shared)
  have c3: "call3 B col row plane = Null \<or>
      (\<exists>b' k. call3 B col row plane = Ptr b' k \<and> b' < length (sa_release h (Some b)))"
    for col row plane
    using oB bl by (simp add: call3_def ptr_add_def)
  show ?thesis
  proof (cases "c * r * p = 0")
    case True
    show ?thesis
      using False dA rel s
      by (auto simp: set_size_zero [OF False True] read_pixel_def load_release_shared [OF l cnt])
  next
    case nz: False
    have ok: "handle_ok h (m_data A)" using invA by (rule view_inv_handle_ok)
    show ?thesis
      using False dA rel bl s
      by (auto simp: set_size_alloc [OF False nz ok] read_pixel_def load_append [OF c3]
          load_release_shared [OF l cnt] lookup_append_old)
  qed
qed

lemma small_system: "system_inv (small_heap 2) [small_view, small_view]"
proof -
  have "view_inv (small_heap 2) small_view"
    using small_example_inv [of 1] by (simp add: numeral_2_eq_2)
  moreover have "use_count blk = handles [small_view, small_view] b"
    if "lookup (small_heap 2) b = Some blk" for b blk
    using that by (auto simp: lookup_def small_heap_def handles_def small_view_def split: if_splits)
  ultimately show ?thesis by (simp add: system_inv_def)
qed

lemma set_size_fresh:
  assumes inv: "view_inv h v"
    and diff: "\<not> (c = m_cols v \<and> r = m_rows v \<and> p = m_planes v)"
    and no: "no_overflow c r p" and nz: "c \<noteq> 0 \<and> r \<noteq> 0 \<and> p \<noteq> 0"
  shows "\<exists>h' v' blk. set_size tr h v c r p = Inr (h', v') \<and>
           lookup h (length h) = None \<and> m_data v' = Some (length h) \<and>
           m_origin v' = Ptr (length h) 0 \<and>
           lookup h' (length h) = Some blk \<and> use_count blk = 1 \<and>
           length (elems blk) = unat c * unat r * unat p \<and>
           (\<forall>b<length h. lookup h' b = lookup (sa_release h (m_data v)) b) \<and>
           cols v' = c \<and> rows v' = r \<and> planes v' = p \<and>
           m_cstride v' = 1 \<and> m_rstride v' = uint c \<and> m_pstride v' = uint r * uint c \<and>
           (is_fundamental tr \<longrightarrow>
              (\<forall>col row plane. in_range v' col row plane \<longrightarrow>
                 read_pixel h' v' col row plane = Inr (Value 0)))"
proof -
  have wnz: "c * r * p \<noteq> 0" using no nz by (rule word3_nonzero)
  have ok: "handle_ok h (m_data v)" using inv by (rule view_inv_handle_ok)
  define blk :: "'a block" where "blk = \<lparr>use_count = Suc 0,
      elems = replicate (unat (c * r * p)) (if is_fundamental tr then Value 0 else default_init tr)\<rparr>"
  define h' where "h' = sa_release h (m_data v) @ [Some blk]"
  define v' where "v' = v\<lparr>m_data := Some (length h), m_cols := c, m_rows := r, m_planes := p,
            m_origin := Ptr (length h) 0,
            m_cstride := 1, m_rstride := uint c, m_pstride := uint (r * c)\<rparr>"
  have s: "set_size tr h v c r p = Inr (h', v')"
    unfolding h'_def v'_def blk_def by (rule set_size_alloc [OF diff wnz ok])
  have inv': "view_inv h' v'"
    using set_size_result [OF inv, of tr c r p] s by simp
  have ext: "m_cols v' = c" "m_rows v' = r" "m_planes v' = p" by (simp_all add: v'_def)
  have no': "no_overflow (m_cols v') (m_rows v') (m_planes v')" using no ext by simp
  have lk: "lookup h' (length h) = Some blk"
    unfolding h'_def by (rule lookup_append_new) simp
  have old: "\<forall>b<length h. lookup h' b = lookup (sa_release h (m_data v)) b"
    unfolding h'_def by (simp add: lookup_append_old)
  have len: "length (elems blk) = unat c * unat r * unat p"
    by (simp add: blk_def no_overflow_prod [OF no])
  have zero: "read_pixel h' v' col row plane = Inr (Value 0)"
    if f: "is_fundamental tr" and rng: "in_range v' col row plane" for col row plane
  proof -
    obtain b blk' where d: "m_data v' = Some b" and l: "lookup h' b = Some blk'"
      and a: "call3 v' col row plane = Ptr b (linear_index v' (sint col) (sint row) (sint plane))"
      and lo: "0 \<le> linear_index v' (sint col) (sint row) (sint plane)"
      and hi: "linear_index v' (sint col) (sint row) (sint plane) < int (length (elems blk'))"
      using in_range_in_buffer [OF inv' no' rng] by auto
    have b: "b = length h" using d by (simp add: v'_def)
    have blk': "blk' = blk" using l lk b by simp
    have "nat (linear_index v' (sint col) (sint row) (sint plane)) < length (elems blk)"
      using lo hi blk' by simp
    then have "nat (linear_index v' (sint col) (sint row) (sint plane)) < unat (c * r * p)"
      by (simp add: blk_def)
    then have "elems blk ! nat (linear_index v' (sint col) (sint row) (sint plane)) = Value 0"
      using f by (simp add: blk_def)
    then show ?thesis
      using a l lo hi blk' by (simp add: read_pixel_def load_def)
  qed
  have st: "m_pstride v' = uint r * uint c"
    using no_overflow_rc [OF no] nz by (simp add: v'_def)
  show ?thesis
    using s lk old len zero st
    by (intro exI [of _ h'] exI [of _ v'] exI [of _ blk])
       (simp add: lookup_fresh cols_def rows_def planes_def v'_def blk_def)
qed

lemma same_array_same_view:
  assumes "view_inv t d" "view_inv t w" "m_data d = Some b" "m_data w = Some b"
    and "m_cols w = m_cols d" "m_rows w = m_rows d" "m_planes w = m_planes d"
  shows "w = d"
proof -
  have "d \<noteq> empty_view" "w \<noteq> empty_view" using assms(3,4) by (auto simp: empty_view_def)
  then show ?thesis using assms by (intro view_eqI) (simp_all add: view_inv_def)
qed

lemma load_acquire: "load (sa_acquire t d) q = load t q"
proof (cases d)
  case None
  then show ?thesis by (simp add: sa_acquire_def)
next
  case (Some b)
  show ?thesis
  proof (cases q)
    case Null
    then show ?thesis by (simp add: load_def)
  next
    case (Ptr b' k)
    then show ?thesis using Some
      by (auto simp: load_def lookup_acquire split: option.splits)
  qed
qed

lemma load_release_other:
  assumes "d \<noteq> Some b"
  shows "load (sa_release t d) (Ptr b k) = load t (Ptr b k)"
  using assms by (simp add: load_def lookup_sa_release_other)

lemma load_store_other:
  assumes "store t (Ptr b k) x = Inr t'" "q = Null \<or> (\<exists>b' k'. q = Ptr b' k' \<and> b' \<noteq> b)"
  shows "load t' q = load t q"
proof (cases q)
  case Null
  then show ?thesis by (simp add: load_def)
next
  case (Ptr b' k')
  then have ne: "b' \<noteq> b" using assms(2) by simp
  have "lookup t' b' = lookup t b'"
    using assms(1) ne by (auto simp: store_def lookup_update split: option.splits if_splits)
  then show ?thesis using Ptr by (simp add: load_def)
qed

lemma view_load_ignores:
  assumes "view_inv t w" "m_data w \<noteq> Some b"
  shows "ignores_array (\<lambda>u x y z. load u (strided_address w x y z)) b"
proof -
  have o: "m_origin w = sa_get (m_data w)" using assms(1) by (simp add: view_inv_def)
  have "strided_address w x y z = Null \<or> (\<exists>b' k'. strided_address w x y z = Ptr b' k' \<and> b' \<noteq> b)"
    for x y z
    using o assms(2) by (cases "m_data w") (simp_all add: strided_address_def ptr_add_def sa_get_def)
  then show ?thesis unfolding ignores_array_def using load_store_other by blast
qed

lemma system_inv_drop_last:
  assumes sys: "system_inv t (us @ [w])"
  shows "system_inv (sa_release t (m_data w)) us"
proof (cases "m_data w")
  case None
  have "handles (us @ [w]) b = handles us b" for b using None by (simp add: handles_append handles_single)
  then show ?thesis using sys None by (simp add: system_inv_def sa_release_def)
next
  case (Some b)
  have iw: "view_inv t w" using sys by (simp add: system_inv_def)
  then obtain blk where l: "lookup t b = Some blk"
    using Some by (auto simp: view_inv_def split: option.splits)
  have cnt: "use_count blk = Suc (handles us b)"
    using sys l Some by (simp add: system_inv_def handles_append handles_single)
  have other: "handles (us @ [w]) b' = handles us b'" if "b' \<noteq> b" for b'
    using Some that by (simp add: handles_append handles_single)
  have vi: "view_inv (sa_release t (Some b)) u" if u: "u \<in> set us" for u
  proof (rule view_inv_cong)
    show "view_inv t u" using sys u by (simp add: system_inv_def)
    show "\<exists>blk'. lookup (sa_release t (Some b)) b' = Some blk' \<and> 1 \<le> use_count blk' \<and>
                  length (elems blk') = length (elems blk0)"
      if d: "m_data u = Some b'" and l0: "lookup t b' = Some blk0" for b' blk0
    proof (cases "b' = b")
      case True
      have "1 \<le> handles us b" using handles_pos [OF u] d True by simp
      then show ?thesis using True l l0 cnt by (simp add: lookup_release)
    next
      case False
      have "1 \<le> handles us b'" using handles_pos [OF u d] .
      then have "1 \<le> use_count blk0" using sys l0 other [OF False] by (simp add: system_inv_def)
      then show ?thesis using False l0 by (simp add: lookup_release)
    qed
  qed
  have cn: "use_count blk' = handles us b'" if "lookup (sa_release t (Some b)) b' = Some blk'" for b' blk'
  proof (cases "b' = b")
    case True
    then show ?thesis using that l cnt by (auto simp: lookup_release split: if_splits)
  next
    case False
    then have "lookup t b' = Some blk'" using that by (simp add: lookup_release)
    then show ?thesis using sys other [OF False] by (simp add: system_inv_def)
  qed
  show ?thesis using vi cn Some by (simp add: system_inv_def)
qed

lemma view_rasterize_system:
  assumes run: "view_rasterize (us ! j) d t = Inr t'" and sys: "system_inv t us" and j: "j < length us"
  shows "system_inv t' us"
proof -
  let ?w = "us ! j"
  let ?t1 = "sa_acquire t (m_data ?w)"
  obtain t2 where lp: "rasterize_loop (\<lambda>h' c r p. load h' (strided_address ?w c r p)) d ?t1 = Inr t2"
    and t': "t' = sa_release t2 (m_data ?w)"
    using run by (auto simp: view_rasterize_def copy_construct_def destroy_def split: sum.splits)
  have "system_inv ?t1 (us @ [?w])" using copy_construct_system [OF sys j] .
  then have "system_inv t2 (us @ [?w])" using rasterize_loop_system [OF lp] by blast
  then show ?thesis unfolding t' by (rule system_inv_drop_last)
qed

lemma view_rasterize_copies:
  assumes sys: "system_inv t us" and i: "i < length us" and j: "j < length us"
    and ext: "m_cols (us ! j) = m_cols (us ! i)" "m_rows (us ! j) = m_rows (us ! i)"
             "m_planes (us ! j) = m_planes (us ! i)"
    and no: "no_overflow (m_cols (us ! i)) (m_rows (us ! i)) (m_planes (us ! i))"
  shows "\<exists>t'. view_rasterize (us ! j) (us ! i) t = Inr t' \<and> system_inv t' us \<and>
           (\<forall>col row plane. in_range (us ! i) col row plane \<longrightarrow>
              read_pixel t' (us ! i) col row plane = read_pixel t (us ! j) col row plane \<and>
              (\<exists>x. read_pixel t (us ! j) col row plane = Inr x))"
proof -
  let ?d = "us ! i" and ?w = "us ! j"
  let ?t1 = "sa_acquire t (m_data ?w)"
  let ?ev = "\<lambda>(u :: 'a heap) x y z. load u (strided_address ?w x y z)"
  have sys1: "system_inv ?t1 (us @ [?w])" using copy_construct_system [OF sys j] .
  have id: "view_inv t ?d" and iw: "view_inv t ?w" using sys i j by (simp_all add: system_inv_def)
  have id1: "view_inv ?t1 ?d" and iw1: "view_inv ?t1 ?w"
    using sys1 i j by (simp_all add: system_inv_def nth_append)
  have now: "no_overflow (m_cols ?w) (m_rows ?w) (m_planes ?w)" using no ext by simp
  have rng: "in_range ?w col row plane = in_range ?d col row plane" for col row plane
    using ext by (simp add: in_range_def)
  have def: "\<exists>x. read_pixel t ?w col row plane = Inr x" if r: "in_range ?d col row plane" for col row plane
  proof -
    have r': "in_range ?w col row plane" using r rng by simp
    obtain b blk where "lookup t b = Some blk"
      "call3 ?w col row plane = Ptr b (linear_index ?w (sint col) (sint row) (sint plane))"
      "0 \<le> linear_index ?w (sint col) (sint row) (sint plane)"
      "linear_index ?w (sint col) (sint row) (sint plane) < int (length (elems blk))"
      using in_range_in_buffer [OF iw now r'] by auto
    then show ?thesis by (simp add: read_pixel_def load_def)
  qed
  have ex: "\<exists>t'. view_rasterize ?w ?d t = Inr t' \<and>
           (\<forall>col row plane. in_range ?d col row plane \<longrightarrow>
              read_pixel t' ?d col row plane = read_pixel t ?w col row plane)"
  proof (cases "\<exists>b. m_data ?d = Some b \<and> m_data ?w = Some b")
    case True
    then obtain b where "m_data ?d = Some b" "m_data ?w = Some b" by blast
    then have same: "?w = ?d" using same_array_same_view [OF id iw] ext by simp
    have "rasterize_loop ?ev ?d ?t1 = Inr ?t1"
      using rasterize_self [OF id1 no] same by simp
    then have "view_rasterize ?w ?d t = Inr (sa_release ?t1 (m_data ?w))"
      by (simp add: view_rasterize_def copy_construct_def destroy_def)
    then have "view_rasterize ?w ?d t = Inr t" using acquire_release_id [OF iw] by simp
    then show ?thesis using same by simp
  next
    case False
    then have ne: "\<forall>b. m_data ?d = Some b \<longrightarrow> m_data ?w \<noteq> Some b" by simp
    have ig: "\<forall>b. m_data ?d = Some b \<longrightarrow> ignores_array ?ev b"
      using ne view_load_ignores [OF iw1] by blast
    have df: "defined_on ?ev ?t1 (m_cols ?d) (m_rows ?d) (m_planes ?d)"
      unfolding defined_on_def
    proof (intro allI impI)
      fix x y z
      assume a: "0 \<le> x \<and> x < uint (m_cols ?d) \<and> 0 \<le> y \<and> y < uint (m_rows ?d) \<and>
                 0 \<le> z \<and> z < uint (m_planes ?d)"
      obtain b blk where "lookup ?t1 b = Some blk"
        "strided_address ?w x y z = Ptr b (linear_index ?w x y z)"
        "0 \<le> linear_index ?w x y z" "linear_index ?w x y z < int (length (elems blk))"
        using strided_in_buffer [OF iw1 now, of x y z] a ext by auto
      then show "\<exists>val. load ?t1 (strided_address ?w x y z) = Inr val" by (simp add: load_def)
    qed
    obtain t2 where lp: "rasterize_loop ?ev ?d ?t1 = Inr t2"
      and rd: "\<forall>col row plane. in_range ?d col row plane \<longrightarrow>
                 read_pixel t2 ?d col row plane = ?ev ?t1 (sint col) (sint row) (sint plane)"
      using rasterize_eval [OF id1 no df ig] by blast
    have vr: "view_rasterize ?w ?d t = Inr (sa_release t2 (m_data ?w))"
      using lp by (simp add: view_rasterize_def copy_construct_def destroy_def)
    have "read_pixel (sa_release t2 (m_data ?w)) ?d col row plane = read_pixel t ?w col row plane"
      if r: "in_range ?d col row plane" for col row plane
    proof -
      obtain b where d: "m_data ?d = Some b"
        and a: "call3 ?d col row plane = Ptr b (linear_index ?d (sint col) (sint row) (sint plane))"
        using in_range_in_buffer [OF id no r] by blast
      have "m_data ?w \<noteq> Some b" using ne d by simp
      then have "read_pixel (sa_release t2 (m_data ?w)) ?d col row plane = read_pixel t2 ?d col row plane"
        using a by (simp add: read_pixel_def load_release_other)
      also have "\<dots> = load ?t1 (strided_address ?w (sint col) (sint row) (sint plane))"
        using rd r by simp
      also have "\<dots> = read_pixel t ?w col row plane"
        by (simp add: read_pixel_def call3_strided load_acquire)
      finally show ?thesis .
    qed
    then show ?thesis using vr by simp
  qed
  then obtain t' where vr: "view_rasterize ?w ?d t = Inr t'"
    and rd: "\<forall>col row plane. in_range ?d col row plane \<longrightarrow>
              read_pixel t' ?d col row plane = read_pixel t ?w col row plane"
    by blast
  have "system_inv t' us" using view_rasterize_system [OF vr sys j] .
  then show ?thesis using vr rd def by blast
qed

lemma set_size_frame:
  assumes sys: "system_inv h vs" and i: "i < length vs" and j: "j < length vs" and ne: "i \<noteq> j"
    and s: "set_size tr h (vs ! i) c r p = Inr (h', A')"
  shows "read_pixel h' (vs ! j) col row plane = read_pixel h (vs ! j) col row plane"
proof -
  let ?A = "vs ! i" and ?B = "vs ! j"
  have invA: "view_inv h ?A" and invB: "view_inv h ?B" using sys i j by (simp_all add: system_inv_def)
  have o: "m_origin ?B = sa_get (m_data ?B)" using invB by (simp add: view_inv_def)
  show ?thesis
  proof (cases "m_data ?B")
    case None
    then have "call3 ?B col row plane = Null" using o by (simp add: call3_def sa_get_def ptr_add_def)
    then show ?thesis by (simp add: read_pixel_def load_def)
  next
    case (Some b)
    obtain blk where l: "lookup h b = Some blk"
      using invB Some by (auto simp: view_inv_def split: option.splits)
    show ?thesis
    proof (cases "m_data ?A = Some b")
      case True
      have "use_count blk = handles vs b" using sys l by (simp add: system_inv_def)
      then have cnt: "2 \<le> use_count blk" using handles_two [OF i j ne True Some] by simp
      show ?thesis using resize_alias_frame [OF invA invB True Some l cnt s] by blast
    next
      case False
      obtain k where q: "call3 ?B col row plane = Ptr b k"
        using o Some by (simp add: call3_def sa_get_def ptr_add_def)
      have bl: "b < length h" using l by (rule lookup_Some_less)
      have "lookup h' b = lookup h b"
      proof (cases "c = m_cols ?A \<and> r = m_rows ?A \<and> p = m_planes ?A")
        case True
        then show ?thesis using s set_size_same [OF True, of tr h] by simp
      next
        case diff: False
        show ?thesis
        proof (cases "c * r * p = 0")
          case True
          then show ?thesis
            using s set_size_zero [OF diff True, of tr h] False by (auto simp: lookup_sa_release_other)
        next
          case nz: False
          show ?thesis
            using s set_size_alloc [OF diff nz view_inv_handle_ok [OF invA], of tr] False bl
            by (auto simp: lookup_append_old lookup_sa_release_other)
        qed
      qed
      then show ?thesis using q by (simp add: read_pixel_def load_def)
    qed
  qed
qed

lemma view_addressable:
  assumes inv: "view_inv h v" and no: "no_overflow (m_cols v) (m_rows v) (m_planes v)"
  shows "addressable h v"
proof -
  have a: "in_buffer h v (call3 v col row plane) \<and>
           call3 v col row plane = strided_address v (sint col) (sint row) (sint plane)"
    if "in_range v col row plane" for col row plane
    using in_range_in_buffer [OF inv no that] by (auto simp: in_buffer_def call3_strided)
  have b: "length (elems blk) = unat (m_cols v) * unat (m_rows v) * unat (m_planes v)"
    if "m_data v = Some b \<and> lookup h b = Some blk" for b blk
    using inv that no_overflow_prod [OF no] by (auto simp: view_inv_def)
  show ?thesis unfolding addressable_def using a b by blast
qed

lemma system_addresses:
  assumes "system_inv h vs"
  shows "addresses_buffers h vs"
  using assms view_addressable by (auto simp: addresses_buffers_def system_inv_def)




lemma assign_eval_system:
  fixes h :: "('a::zero) heap"
  assumes a: "assign tr h (vs ! i) (eval_source c r p ev) = Inr (h', v')"
    and sys: "system_inv h vs" and i: "i < length vs"
  shows "system_inv h' (vs[i := v'])"
proof -
  obtain h1 v1 where s: "set_size tr h (vs ! i) c r p = Inr (h1, v1)"
    and sys1: "system_inv h1 (vs[i := v1])"
    using set_size_system [OF sys i, of tr c r p] by auto
  have "rasterize_loop ev v1 h1 = Inr h'" and "v' = v1"
    using a s by (auto simp: assign_def eval_source_def split: sum.splits)
  then show ?thesis using rasterize_loop_system sys1 by blast
qed

lemma resized_source_position:
  assumes s: "set_size tr h (vs ! i) (m_cols (vs ! j)) (m_rows (vs ! j)) (m_planes (vs ! j)) = Inr (h1, v1)"
    and i: "i < length vs"
  shows "(vs[i := v1]) ! j = vs ! j \<and> (i = j \<longrightarrow> h1 = h)"
proof (cases "i = j")
  case True
  have "set_size tr h (vs ! i) (m_cols (vs ! i)) (m_rows (vs ! i)) (m_planes (vs ! i)) = Inr (h, vs ! i)"
    by (rule set_size_same) simp
  then show ?thesis using s True i by simp
next
  case False
  then show ?thesis by simp
qed

lemma assign_view_system:
  fixes h :: "('a::zero) heap"
  assumes a: "assign tr h (vs ! i) (view_source (vs ! j)) = Inr (h', v')"
    and sys: "system_inv h vs" and i: "i < length vs" and j: "j < length vs"
  shows "system_inv h' (vs[i := v'])"
proof -
  obtain h1 v1 where s: "set_size tr h (vs ! i) (m_cols (vs ! j)) (m_rows (vs ! j)) (m_planes (vs ! j)) = Inr (h1, v1)"
    and sys1: "system_inv h1 (vs[i := v1])"
    using set_size_system [OF sys i] by blast
  have run: "view_rasterize (vs ! j) v1 h1 = Inr h'" and v': "v' = v1"
    using a s by (auto simp: assign_def view_source_def cols_def rows_def planes_def split: sum.splits)
  have pos: "(vs[i := v1]) ! j = vs ! j" using resized_source_position [OF s i] by simp
  have "view_rasterize ((vs[i := v1]) ! j) v1 h1 = Inr h'" using run pos by simp
  then show ?thesis unfolding v' using view_rasterize_system sys1 j by (metis length_list_update)
qed

lemma assign_view:
  fixes h :: "('a::zero) heap"
  assumes sys: "system_inv h vs" and i: "i < length vs" and j: "j < length vs"
    and no: "no_overflow (m_cols (vs ! j)) (m_rows (vs ! j)) (m_planes (vs ! j))"
    and s: "set_size tr h (vs ! i) (m_cols (vs ! j)) (m_rows (vs ! j)) (m_planes (vs ! j)) = Inr (h1, v1)"
  shows "\<exists>h'. view_rasterize (vs ! j) v1 h1 = Inr h' \<and>
           assign tr h (vs ! i) (view_source (vs ! j)) = Inr (h', v1) \<and>
           system_inv h' (vs[i := v1]) \<and>
           (\<forall>col row plane. in_range v1 col row plane \<longrightarrow>
              read_pixel h' v1 col row plane = read_pixel h (vs ! j) col row plane \<and>
              (\<exists>x. read_pixel h (vs ! j) col row plane = Inr x))"
proof -
  let ?us = "vs[i := v1]"
  obtain h1' v1' where s': "set_size tr h (vs ! i) (m_cols (vs ! j)) (m_rows (vs ! j)) (m_planes (vs ! j)) = Inr (h1', v1')"
    and sys1': "system_inv h1' (vs[i := v1'])"
    and ext': "m_cols v1' = m_cols (vs ! j)" "m_rows v1' = m_rows (vs ! j)" "m_planes v1' = m_planes (vs ! j)"
    using set_size_system [OF sys i] by blast
  have sys1: "system_inv h1 ?us" and ext: "m_cols v1 = m_cols (vs ! j)" "m_rows v1 = m_rows (vs ! j)"
    "m_planes v1 = m_planes (vs ! j)"
    using s s' sys1' ext' by simp_all
  have pos: "?us ! j = vs ! j" and same: "i = j \<longrightarrow> h1 = h"
    using resized_source_position [OF s i] by simp_all
  have usi: "?us ! i = v1" using i by simp
  have li: "i < length ?us" and lj: "j < length ?us" using i j by simp_all
  have e: "m_cols (?us ! j) = m_cols (?us ! i)" "m_rows (?us ! j) = m_rows (?us ! i)"
    "m_planes (?us ! j) = m_planes (?us ! i)"
    using pos usi ext by simp_all
  have n: "no_overflow (m_cols (?us ! i)) (m_rows (?us ! i)) (m_planes (?us ! i))"
    using no usi ext by simp
  obtain h' where run: "view_rasterize (?us ! j) (?us ! i) h1 = Inr h'"
    and sys': "system_inv h' ?us"
    and rd: "\<forall>col row plane. in_range (?us ! i) col row plane \<longrightarrow>
               read_pixel h' (?us ! i) col row plane = read_pixel h1 (?us ! j) col row plane \<and>
               (\<exists>x. read_pixel h1 (?us ! j) col row plane = Inr x)"
    using view_rasterize_copies [OF sys1 li lj e n] by blast
  have fr: "read_pixel h1 (vs ! j) col row plane = read_pixel h (vs ! j) col row plane"
    for col row plane
  proof (cases "i = j")
    case True
    then show ?thesis using same by simp
  next
    case False
    then show ?thesis using set_size_frame [OF sys i j False s] by simp
  qed
  have run': "view_rasterize (vs ! j) v1 h1 = Inr h'" using run pos usi by simp
  have a: "assign tr h (vs ! i) (view_source (vs ! j)) = Inr (h', v1)"
    using s run' by (simp add: assign_def view_source_def cols_def rows_def planes_def)
  have "read_pixel h' v1 col row plane = read_pixel h (vs ! j) col row plane \<and>
        (\<exists>x. read_pixel h (vs ! j) col row plane = Inr x)"
    if "in_range v1 col row plane" for col row plane
    using rd that usi pos fr by simp
  then show ?thesis using run' a sys' by blast
qed


lemma small_wrapped_system: "system_inv (small_heap 1) [small_view, wrapped_view]"
proof -
  have "view_inv (small_heap 1) small_view" using small_example_inv [of 0] by simp
  moreover have "view_inv (small_heap 1) wrapped_view" by code_simp
  moreover have "use_count blk = handles [small_view, wrapped_view] b"
    if "lookup (small_heap 1) b = Some blk" for b blk
    using that
    by (auto simp: lookup_def small_heap_def handles_def small_view_def wrapped_view_def split: if_splits)
  ultimately show ?thesis by (simp add: system_inv_def)
qed


lemma set_size_detaches:
  assumes inv: "view_inv h v" and diff: "\<not> (c = m_cols v \<and> r = m_rows v \<and> p = m_planes v)"
  shows "\<exists>h' v'. set_size tr h v c r p = Inr (h', v') \<and>
           (if c * r * p = 0
            then m_data v' = None \<and> m_origin v' = Null \<and> length h' = length h
            else m_data v' = Some (length h) \<and> m_origin v' = Ptr (length h) 0 \<and>
                 lookup h (length h) = None \<and>
                 (\<exists>blk. lookup h' (length h) = Some blk \<and> use_count blk = 1 \<and>
                    length (elems blk) = unat (c * r * p)))"
proof (cases "c * r * p = 0")
  case True
  show ?thesis using True by (simp add: set_size_zero [OF diff True])
next
  case False
  show ?thesis
    using False
    by (simp add: set_size_alloc [OF diff False view_inv_handle_ok [OF inv]]
        lookup_fresh lookup_append_new)
qed

section \<open>The claims\<close>




text \<open>C2, as amended. When the requested extent differs from the current one and the
  product \<open>cols*rows*planes\<close> is below \<open>2 ^ 32\<close>, \<^verbatim>\<open>set_size\<close> releases the old handle,
  stores the extent and the canonical strides \<open>1\<close>, \<open>cols\<close>, \<open>rows*cols\<close>, and allocates
  a fresh array of \<open>cols*rows*planes\<close> elements with this view as its only owner (no
  array, and a null origin, when an argument is zero); when the element type is a
  fundamental type, every in-range read of the resized view returns zero.\<close>

theorem set_size_fresh_zeroed:
  assumes inv: "view_inv h v"
    and diff: "\<not> (c = m_cols v \<and> r = m_rows v \<and> p = m_planes v)"
    and no: "no_overflow c r p"
  shows "\<exists>h' v'. set_size tr h v c r p = Inr (h', v') \<and>
           (\<forall>b<length h. lookup h' b = lookup (sa_release h (m_data v)) b) \<and>
           cols v' = c \<and> rows v' = r \<and> planes v' = p \<and>
           m_cstride v' = 1 \<and> m_rstride v' = uint c \<and> m_pstride v' = uint (r * c) \<and>
           (if c = 0 \<or> r = 0 \<or> p = 0
            then m_data v' = None \<and> m_origin v' = Null \<and> length h' = length h
            else m_pstride v' = uint r * uint c \<and> lookup h (length h) = None \<and>
                 m_data v' = Some (length h) \<and> m_origin v' = Ptr (length h) 0 \<and>
                 (\<exists>blk. lookup h' (length h) = Some blk \<and> use_count blk = 1 \<and>
                    length (elems blk) = unat c * unat r * unat p)) \<and>
           (is_fundamental tr \<longrightarrow>
              (\<forall>col row plane. in_range v' col row plane \<longrightarrow>
                 read_pixel h' v' col row plane = Inr (Value 0)))"
proof (cases "c = 0 \<or> r = 0 \<or> p = 0")
  case True
  then have z: "c * r * p = 0" by (rule word3_zero)
  have "\<not> in_range (v\<lparr>m_data := None, m_cols := c, m_rows := r, m_planes := p, m_origin := Null,
            m_cstride := 1, m_rstride := uint c, m_pstride := uint (r * c)\<rparr>) col row plane"
    for col row plane
    using True by (auto simp: in_range_def)
  then show ?thesis
    using True by (simp add: set_size_zero [OF diff z] cols_def rows_def planes_def)
next
  case False
  then have nz: "c \<noteq> 0 \<and> r \<noteq> 0 \<and> p \<noteq> 0" by simp
  obtain h' v' blk where "set_size tr h v c r p = Inr (h', v')"
    "lookup h (length h) = None" "m_data v' = Some (length h)" "m_origin v' = Ptr (length h) 0"
    "lookup h' (length h) = Some blk" "use_count blk = 1"
    "length (elems blk) = unat c * unat r * unat p"
    "\<forall>b<length h. lookup h' b = lookup (sa_release h (m_data v)) b"
    "cols v' = c" "rows v' = r" "planes v' = p"
    "m_cstride v' = 1" "m_rstride v' = uint c" "m_pstride v' = uint r * uint c"
    "is_fundamental tr \<longrightarrow>
              (\<forall>col row plane. in_range v' col row plane \<longrightarrow>
                 read_pixel h' v' col row plane = Inr (Value 0))"
    using set_size_fresh [OF inv diff no nz, of tr] by blast
  then show ?thesis
    using False no_overflow_rc [OF no] by (intro exI [of _ h'] exI [of _ v']) simp
qed

theorem set_size_fresh_zeroed_witness:
  "view_inv ([] :: 32 word heap) empty_view \<and>
   \<not> ((4::u32) = m_cols empty_view \<and> (3::u32) = m_rows empty_view \<and> (1::u32) = m_planes empty_view) \<and>
   no_overflow 4 3 1 \<and>
   is_fundamental int32_pixel \<and>
   (\<exists>h' v'. set_size int32_pixel [] empty_view 4 3 1 = Inr (h', v') \<and>
      cols v' = 4 \<and> rows v' = 3 \<and> planes v' = 1 \<and> in_range v' 2 1 0 \<and>
      read_pixel h' v' 2 1 0 = Inr (Value 0))"
proof -
  have a: "view_inv ([] :: 32 word heap) empty_view" by (rule view_inv_empty)
  have b: "\<not> ((4::u32) = m_cols empty_view \<and> (3::u32) = m_rows empty_view \<and>
               (1::u32) = m_planes empty_view)"
    by (simp add: empty_view_def)
  have c: "no_overflow 4 3 1" by (simp add: no_overflow_def)
  have e: "is_fundamental int32_pixel" by (simp add: int32_pixel_def)
  obtain h' v' where s: "set_size int32_pixel [] empty_view 4 3 1 = Inr (h', v')"
    and x: "cols v' = 4" "rows v' = 3" "planes v' = 1"
    and z: "\<forall>col row plane. in_range v' col row plane \<longrightarrow>
                 read_pixel h' v' col row plane = Inr (Value 0)"
    using set_size_fresh_zeroed [OF a b c, of int32_pixel] e by auto
  have r: "in_range v' 2 1 0"
    using x by (simp add: in_range_def cols_def rows_def planes_def)
  show ?thesis using a b c e s x z r by auto
qed

text \<open>C2 as stated fails in two ways. With the extent \<open>65536 \<times> 65536 \<times> 1\<close> the 32-bit
  product is zero, no array is allocated and the in-range coordinate \<open>(0,0,0)\<close> goes
  through a null origin. With a plain struct as element type (trivially copyable, but
  not fundamental) the new array is not cleared and a read returns an indeterminate
  value.\<close>

theorem set_size_zero_fill_counterexample:
  "set_size int32_pixel [] empty_view 65536 65536 1 = Inr ([], wrapped_view) \<and>
   in_range wrapped_view 0 0 0 \<and>
   read_pixel ([] :: 32 word heap) wrapped_view 0 0 0 = Inl UndefinedAccess \<and>
   set_size struct_pixel [] empty_view 2 2 1 =
     Inr ([Some \<lparr>use_count = 1, elems = replicate 4 Indeterminate\<rparr>],
          \<lparr>m_data = Some 0, m_cols = 2, m_rows = 2, m_planes = 1, m_origin = Ptr 0 0,
           m_cstride = 1, m_rstride = 2, m_pstride = 4\<rparr>) \<and>
   in_range \<lparr>m_data = Some 0, m_cols = 2, m_rows = 2, m_planes = 1, m_origin = Ptr 0 0,
             m_cstride = 1, m_rstride = 2, m_pstride = 4\<rparr> 1 1 0 \<and>
   read_pixel [Some \<lparr>use_count = 1, elems = replicate 4 (Indeterminate :: 32 word cell)\<rparr>]
      \<lparr>m_data = Some 0, m_cols = 2, m_rows = 2, m_planes = 1, m_origin = Ptr 0 0,
       m_cstride = 1, m_rstride = 2, m_pstride = 4\<rparr> 1 1 0 = Inr Indeterminate"
  by code_simp

text \<open>C3, as amended. Let \<open>A\<close> be a view in a state the class can reach whose extent has
  a product below \<open>2 ^ 32\<close>, and \<open>B\<close> copy-constructed or copy-assigned from it. After any
  sequence of in-range writes through either view, a value written through \<open>A\<close> at an
  in-range coordinate is read back through \<open>B\<close> at that coordinate, and a value written
  through \<open>B\<close> is read back through \<open>A\<close>.\<close>

theorem copy_shares_pixels:
  assumes inv: "view_inv h A" and no: "no_overflow (m_cols A) (m_rows A) (m_planes A)"
    and cp: "copy_construct h A = (h1, B) \<or> copy_assign h B0 A = (h1, B)"
    and ws: "\<forall>(viaB, col, row, plane, x) \<in> set ws. in_range A col row plane"
    and rng: "in_range A col row plane"
  shows "\<exists>h2 h3 h4. write_seq A B h1 ws = Inr h2 \<and>
           write_pixel h2 A col row plane x = Inr h3 \<and>
           read_pixel h3 B col row plane = Inr (Value x) \<and>
           write_pixel h2 B col row plane x = Inr h4 \<and>
           read_pixel h4 A col row plane = Inr (Value x) \<and>
           m_data B = m_data A \<and> m_origin B = m_origin A"
proof -
  have B: "B = A"
    using cp by (auto simp: copy_construct_def copy_assign_def)
  have inv1: "view_inv h1 A"
    using copy_construct_inv [OF inv] copy_assign_inv [OF inv, of B0] cp by auto
  obtain h2 where s: "write_seq A A h1 ws = Inr h2" and inv2: "view_inv h2 A"
    using write_seq_ok [OF inv1 no ws] by blast
  obtain h3 where w: "write_pixel h2 A col row plane x = Inr h3"
    and r: "read_pixel h3 A col row plane = Inr (Value x)"
    using write_pixel_ok [OF inv2 no rng, of x] by blast
  show ?thesis using s w r B by simp
qed

theorem copy_shares_pixels_witness:
  "view_inv (small_heap 1) small_view \<and>
   no_overflow (m_cols small_view) (m_rows small_view) (m_planes small_view) \<and>
   copy_construct (small_heap 1) small_view = (small_heap 2, small_view) \<and>
   in_range small_view 0 0 0 \<and> in_range small_view 3 2 0 \<and>
   (\<exists>h2 h3. write_seq small_view small_view (small_heap 2) [(True, 0, 0, 0, 5)] = Inr h2 \<and>
      write_pixel h2 small_view 3 2 0 9 = Inr h3 \<and>
      read_pixel h3 small_view 3 2 0 = Inr (Value 9))"
proof -
  have a: "view_inv (small_heap 1) small_view" using small_example_inv [of 0] by simp
  have c: "copy_construct (small_heap 1) small_view = (small_heap 2, small_view)
           \<or> copy_assign (small_heap 1) empty_view small_view = (small_heap 2, small_view)"
    using small_example_reached by simp
  have d: "\<forall>(viaB, col, row, plane, x) \<in> set [(True, 0, 0, 0, 5::32 word)].
             in_range small_view col row plane"
    by (simp add: in_range_def small_view_def)
  have e: "in_range small_view 3 2 0" by (simp add: in_range_def small_view_def)
  show ?thesis
    using a small_example_no_overflow small_example_reached d e
      copy_shares_pixels [OF a small_example_no_overflow c d e, of 9]
    by auto
qed

text \<open>C3 as stated fails for the view that \<^verbatim>\<open>set_size(65536,65536,1)\<close> produces: the
  coordinate \<open>(0,0,0)\<close> is in range, but the view has no array, and writing or reading
  through it or through its copy dereferences a null origin.\<close>

theorem copy_shares_pixels_counterexample:
  "set_size int32_pixel [] empty_view 65536 65536 1 = Inr ([], wrapped_view) \<and>
   copy_construct ([] :: 32 word heap) wrapped_view = ([], wrapped_view) \<and>
   in_range wrapped_view 0 0 0 \<and>
   write_pixel ([] :: 32 word heap) wrapped_view 0 0 0 7 = Inl UndefinedAccess \<and>
   read_pixel ([] :: 32 word heap) wrapped_view 0 0 0 = Inl UndefinedAccess"
  by code_simp

text \<open>C4, as amended. Let two different views of a system hold handles to the same array,
  \<open>A\<close> at position \<open>i\<close> and \<open>B\<close> at position \<open>j\<close>. \<^verbatim>\<open>A.set_size(c,r,p)\<close> returns;
  afterwards the counts of the system are right again, \<open>B\<close> is the same record (extent,
  strides, origin and handle), and \<open>B\<close> reads at every coordinate exactly what it read
  before. If the extent differs from the current one, \<open>A\<close> no longer refers to the
  shared array while \<open>B\<close> still does, \<open>A\<close> reports the requested extent, and \<open>A\<close> holds
  either no array, with a null origin and none allocated (when the 32-bit product of
  the requested extent is zero), or an array that did not exist and that no view
  referred to, with one owner and as many elements as that 32-bit product.\<close>

theorem resize_leaves_alias_unchanged:
  assumes sys: "system_inv h vs" and i: "i < length vs" and j: "j < length vs" and ne: "i \<noteq> j"
    and dA: "m_data (vs ! i) = Some b" and dB: "m_data (vs ! j) = Some b"
  shows "\<exists>h' A'. set_size tr h (vs ! i) c r p = Inr (h', A') \<and>
           system_inv h' (vs[i := A']) \<and> (vs[i := A']) ! j = vs ! j \<and>
           (\<forall>col row plane. read_pixel h' (vs ! j) col row plane
                               = read_pixel h (vs ! j) col row plane) \<and>
           (\<not> (c = m_cols (vs ! i) \<and> r = m_rows (vs ! i) \<and> p = m_planes (vs ! i)) \<longrightarrow>
              m_data A' \<noteq> Some b \<and> m_data (vs ! j) = Some b \<and>
              cols A' = c \<and> rows A' = r \<and> planes A' = p \<and>
              (if c * r * p = 0
               then m_data A' = None \<and> m_origin A' = Null \<and> length h' = length h
               else m_data A' = Some (length h) \<and> m_origin A' = Ptr (length h) 0 \<and>
                    lookup h (length h) = None \<and>
                    (\<forall>k<length vs. m_data (vs ! k) \<noteq> Some (length h)) \<and>
                    (\<exists>blk. lookup h' (length h) = Some blk \<and> use_count blk = 1 \<and>
                       length (elems blk) = unat (c * r * p))))"
proof -
  obtain h' A' where s: "set_size tr h (vs ! i) c r p = Inr (h', A')"
    and sys': "system_inv h' (vs[i := A'])"
    and ext: "m_cols A' = c" "m_rows A' = r" "m_planes A' = p"
    using set_size_system [OF sys i, of tr c r p] by auto
  have invA: "view_inv h (vs ! i)" and invB: "view_inv h (vs ! j)"
    using sys i j by (simp_all add: system_inv_def)
  obtain blk where l: "lookup h b = Some blk"
    using invA dA by (auto simp: view_inv_def split: option.splits)
  have "use_count blk = handles vs b" using sys l by (simp add: system_inv_def)
  then have cnt: "2 \<le> use_count blk" using handles_two [OF i j ne dA dB] by simp
  have pos: "(vs[i := A']) ! j = vs ! j" using ne by simp
  have unref: "m_data (vs ! k) \<noteq> Some (length h)" if k: "k < length vs" for k
  proof
    assume d: "m_data (vs ! k) = Some (length h)"
    have "view_inv h (vs ! k)" using sys k by (simp add: system_inv_def)
    then show False using d by (simp add: view_inv_def lookup_fresh)
  qed
  have det: "if c * r * p = 0
               then m_data A' = None \<and> m_origin A' = Null \<and> length h' = length h
               else m_data A' = Some (length h) \<and> m_origin A' = Ptr (length h) 0 \<and>
                    lookup h (length h) = None \<and>
                    (\<forall>k<length vs. m_data (vs ! k) \<noteq> Some (length h)) \<and>
                    (\<exists>blk. lookup h' (length h) = Some blk \<and> use_count blk = 1 \<and>
                       length (elems blk) = unat (c * r * p))"
    if diff: "\<not> (c = m_cols (vs ! i) \<and> r = m_rows (vs ! i) \<and> p = m_planes (vs ! i))"
    using set_size_detaches [OF invA diff, of tr] s unref by (auto split: if_splits)
  have x: "cols A' = c \<and> rows A' = r \<and> planes A' = p"
    using ext by (simp add: cols_def rows_def planes_def)
  show ?thesis
    using s sys' pos dB x det resize_alias_frame [OF invA invB dA dB l cnt s] by blast
qed

theorem resize_leaves_alias_unchanged_witness:
  "system_inv (small_heap 2) [small_view, small_view] \<and>
   m_data ([small_view, small_view] ! 0) = Some 0 \<and> m_data ([small_view, small_view] ! 1) = Some 0 \<and>
   m_cols small_view = 4 \<and>
   (\<exists>h' A'. set_size int32_pixel (small_heap 2) small_view 2 2 1 = Inr (h', A') \<and>
      m_data A' = Some 1 \<and> cols A' = 2 \<and> rows A' = 2 \<and> planes A' = 1 \<and>
      system_inv h' [A', small_view] \<and>
      (\<exists>blk. lookup h' 1 = Some blk \<and> use_count blk = 1 \<and> length (elems blk) = 4) \<and>
      read_pixel h' small_view 2 1 0 = Inr (Value 7))"
proof -
  have d: "m_data ([small_view, small_view] ! 0) = Some 0" "m_data ([small_view, small_view] ! 1) = Some 0"
    by (simp_all add: small_view_def)
  have r: "read_pixel (small_heap 2) small_view 2 1 0 = Inr (Value 7)" by code_simp
  have n: "\<not> ((2::u32) = m_cols (([small_view, small_view]) ! 0) \<and>
              (2::u32) = m_rows (([small_view, small_view]) ! 0) \<and>
              (1::u32) = m_planes (([small_view, small_view]) ! 0))"
    by (simp add: small_view_def)
  have m: "m_cols small_view = 4" by (simp add: small_view_def)
  have z: "(2::u32) * 2 * 1 \<noteq> 0" "unat ((2::u32) * 2 * 1) = 4" "length (small_heap 2) = 1"
    by (simp_all add: small_heap_def)
  obtain h' A' where s: "set_size int32_pixel (small_heap 2) ([small_view, small_view] ! 0) 2 2 1 = Inr (h', A')"
    and sy: "system_inv h' ([small_view, small_view][0 := A'])"
    and rd: "\<forall>col row plane. read_pixel h' ([small_view, small_view] ! 1) col row plane
                               = read_pixel (small_heap 2) ([small_view, small_view] ! 1) col row plane"
    and det: "\<not> ((2::u32) = m_cols (([small_view, small_view]) ! 0) \<and>
              (2::u32) = m_rows (([small_view, small_view]) ! 0) \<and>
              (1::u32) = m_planes (([small_view, small_view]) ! 0)) \<longrightarrow>
              m_data A' \<noteq> Some 0 \<and> m_data ([small_view, small_view] ! 1) = Some 0 \<and>
              cols A' = 2 \<and> rows A' = 2 \<and> planes A' = 1 \<and>
              (if (2::u32) * 2 * 1 = 0
               then m_data A' = None \<and> m_origin A' = Null \<and> length h' = length (small_heap 2)
               else m_data A' = Some (length (small_heap 2)) \<and> m_origin A' = Ptr (length (small_heap 2)) 0 \<and>
                    lookup (small_heap 2) (length (small_heap 2)) = None \<and>
                    (\<forall>k<length [small_view, small_view]. m_data ([small_view, small_view] ! k) \<noteq> Some (length (small_heap 2))) \<and>
                    (\<exists>blk. lookup h' (length (small_heap 2)) = Some blk \<and> use_count blk = 1 \<and>
                       length (elems blk) = unat ((2::u32) * 2 * 1)))"
    using resize_leaves_alias_unchanged [OF small_system _ _ _ d, of int32_pixel 2 2 1] by auto
  have A: "m_data A' = Some 1 \<and> cols A' = 2 \<and> rows A' = 2 \<and> planes A' = 1 \<and>
           (\<exists>blk. lookup h' 1 = Some blk \<and> use_count blk = 1 \<and> length (elems blk) = 4)"
    using det n z by (simp only: if_False simp_thms)
  have s': "set_size int32_pixel (small_heap 2) small_view 2 2 1 = Inr (h', A')" using s by simp
  have sy': "system_inv h' [A', small_view]" using sy by simp
  have rd': "read_pixel h' small_view 2 1 0 = Inr (Value 7)" using rd r by simp
  show ?thesis using small_system d m s' A sy' rd' by blast
qed

text \<open>C4 as stated fails in its last part: \<^verbatim>\<open>A.set_size(0,0,0)\<close> on a view that shares
  its array leaves \<open>A\<close> with no array and allocates none, and so does
  \<^verbatim>\<open>A.set_size(65536,65536,1)\<close>, whose 32-bit product is zero.\<close>

theorem resize_leaves_alias_unchanged_counterexample:
  "system_inv (small_heap 2) [small_view, small_view] \<and>
   m_data small_view = Some 0 \<and> m_cols small_view = 4 \<and>
   set_size int32_pixel (small_heap 2) small_view 0 0 0 =
     Inr (small_heap 1,
          \<lparr>m_data = None, m_cols = 0, m_rows = 0, m_planes = 0, m_origin = Null,
           m_cstride = 1, m_rstride = 0, m_pstride = 0\<rparr>) \<and>
   length (small_heap 1) = length (small_heap 2) \<and>
   set_size int32_pixel (small_heap 2) small_view 65536 65536 1 = Inr (small_heap 1, wrapped_view) \<and>
   m_data wrapped_view = None"
proof -
  have "m_data small_view = Some 0 \<and> m_cols small_view = 4 \<and>
   set_size int32_pixel (small_heap 2) small_view 0 0 0 =
     Inr (small_heap 1,
          \<lparr>m_data = None, m_cols = 0, m_rows = 0, m_planes = 0, m_origin = Null,
           m_cstride = 1, m_rstride = 0, m_pstride = 0\<rparr>) \<and>
   length (small_heap 1) = length (small_heap 2) \<and>
   set_size int32_pixel (small_heap 2) small_view 65536 65536 1 = Inr (small_heap 1, wrapped_view) \<and>
   m_data wrapped_view = None"
    by code_simp
  with small_system show ?thesis by (rule conjI)
qed

text \<open>C5, as amended. In a system of views with right counts, every view whose extent
  has a product below \<open>2 ^ 32\<close> maps each in-range coordinate under the strided formula
  to an element of its own array, which has \<open>cols*rows*planes\<close> elements; the other
  views of the system need not have such an extent. The same is true of the system
  that default construction, copy construction, copy assignment, \<^verbatim>\<open>set_size\<close>,
  assignment from a per-coordinate producer or from a view, \<^verbatim>\<open>reset\<close> and writing a
  pixel lead to, and the view operated on has the property whenever its new extent has
  a product below \<open>2 ^ 32\<close>. Assignment from a coordinate-only producer or from a view
  with such an extent returns.\<close>

theorem in_range_addresses_buffer:
  fixes h :: "('a::zero) heap"
  assumes sys: "system_inv h vs" and i: "i < length vs"
  shows "(\<forall>k<length vs. no_overflow (m_cols (vs ! k)) (m_rows (vs ! k)) (m_planes (vs ! k)) \<longrightarrow>
            (\<forall>col row plane. in_range (vs ! k) col row plane \<longrightarrow>
               in_buffer h (vs ! k) (call3 (vs ! k) col row plane) \<and>
               call3 (vs ! k) col row plane
                 = strided_address (vs ! k) (sint col) (sint row) (sint plane)) \<and>
            (\<forall>b blk. m_data (vs ! k) = Some b \<and> lookup h b = Some blk \<longrightarrow>
               length (elems blk)
                 = unat (m_cols (vs ! k)) * unat (m_rows (vs ! k)) * unat (m_planes (vs ! k)))) \<and>
         addresses_buffers h (vs @ [empty_view]) \<and>
         (\<forall>(tr :: 'a pixel_traits) c r p.
            \<exists>h' v'. set_size tr h (vs ! i) c r p = Inr (h', v') \<and>
              addresses_buffers h' (vs[i := v']) \<and> (no_overflow c r p \<longrightarrow> addressable h' v')) \<and>
         addresses_buffers (fst (copy_construct h (vs ! i))) (vs @ [snd (copy_construct h (vs ! i))]) \<and>
         (\<forall>j<length vs. addresses_buffers (fst (copy_assign h (vs ! i) (vs ! j)))
                            (vs[i := snd (copy_assign h (vs ! i) (vs ! j))])) \<and>
         (\<forall>(tr :: 'a pixel_traits) c r p ev h' v'.
            assign tr h (vs ! i) (eval_source c r p ev) = Inr (h', v') \<longrightarrow>
              addresses_buffers h' (vs[i := v']) \<and> (no_overflow c r p \<longrightarrow> addressable h' v')) \<and>
         (\<forall>(tr :: 'a pixel_traits) j h' v'.
            j < length vs \<and> assign tr h (vs ! i) (view_source (vs ! j)) = Inr (h', v') \<longrightarrow>
              addresses_buffers h' (vs[i := v']) \<and>
              (no_overflow (m_cols (vs ! j)) (m_rows (vs ! j)) (m_planes (vs ! j)) \<longrightarrow>
                 addressable h' v')) \<and>
         (\<forall>(tr :: 'a pixel_traits) c r p f. no_overflow c r p \<longrightarrow>
            (\<exists>h' v'. assign tr h (vs ! i) (pixel_source c r p f) = Inr (h', v') \<and>
               addresses_buffers h' (vs[i := v']) \<and> addressable h' v')) \<and>
         (\<forall>(tr :: 'a pixel_traits) j.
            j < length vs \<and> no_overflow (m_cols (vs ! j)) (m_rows (vs ! j)) (m_planes (vs ! j)) \<longrightarrow>
            (\<exists>h' v'. assign tr h (vs ! i) (view_source (vs ! j)) = Inr (h', v') \<and>
               addresses_buffers h' (vs[i := v']) \<and> addressable h' v')) \<and>
         addresses_buffers (fst (reset h (vs ! i))) (vs[i := snd (reset h (vs ! i))]) \<and>
         (\<forall>k col row plane x h'. k < length vs \<and> write_pixel h (vs ! k) col row plane x = Inr h' \<longrightarrow>
            addresses_buffers h' vs)"
proof -
  let ?v = "vs ! i"
  have own: "addressable h' v'"
    if "system_inv h' (vs[i := v'])" "no_overflow (m_cols v') (m_rows v') (m_planes v')" for h' :: "'a heap" and v'
  proof -
    have "v' \<in> set (vs[i := v'])" using i by (simp add: set_update_memI)
    then have "view_inv h' v'" using that(1) by (simp add: system_inv_def)
    then show ?thesis using that(2) by (rule view_addressable)
  qed
  have a: "(\<forall>col row plane. in_range (vs ! k) col row plane \<longrightarrow>
               in_buffer h (vs ! k) (call3 (vs ! k) col row plane) \<and>
               call3 (vs ! k) col row plane
                 = strided_address (vs ! k) (sint col) (sint row) (sint plane)) \<and>
            (\<forall>b blk. m_data (vs ! k) = Some b \<and> lookup h b = Some blk \<longrightarrow>
               length (elems blk)
                 = unat (m_cols (vs ! k)) * unat (m_rows (vs ! k)) * unat (m_planes (vs ! k)))"
    if k: "k < length vs" and no: "no_overflow (m_cols (vs ! k)) (m_rows (vs ! k)) (m_planes (vs ! k))"
    for k
  proof -
    have "view_inv h (vs ! k)" using sys k by (simp add: system_inv_def)
    then have "addressable h (vs ! k)" using no by (rule view_addressable)
    then show ?thesis unfolding addressable_def .
  qed
  have z: "addresses_buffers h (vs @ [empty_view])"
    using system_inv_default [OF sys] by (rule system_addresses)
  have c: "\<exists>h' v'. set_size tr h ?v c r p = Inr (h', v') \<and>
             addresses_buffers h' (vs[i := v']) \<and> (no_overflow c r p \<longrightarrow> addressable h' v')"
    for tr :: "'a pixel_traits" and c r p
  proof -
    obtain h' v' where s: "set_size tr h ?v c r p = Inr (h', v')"
      and sys': "system_inv h' (vs[i := v'])"
      and ext: "m_cols v' = c" "m_rows v' = r" "m_planes v' = p"
      using set_size_system [OF sys i, of tr c r p] by auto
    show ?thesis using s system_addresses [OF sys'] own [OF sys'] ext by auto
  qed
  have d: "addresses_buffers (fst (copy_construct h ?v)) (vs @ [snd (copy_construct h ?v)])"
    using system_addresses [OF copy_construct_system [OF sys i]] by (simp add: copy_construct_def)
  have e: "addresses_buffers (fst (copy_assign h ?v (vs ! j))) (vs[i := snd (copy_assign h ?v (vs ! j))])"
    if j: "j < length vs" for j
    using copy_assign_system [OF sys i j] by (rule system_addresses)
  have f: "addresses_buffers h' (vs[i := v']) \<and> (no_overflow c r p \<longrightarrow> addressable h' v')"
    if as: "assign tr h ?v (eval_source c r p ev) = Inr (h', v')"
    for tr :: "'a pixel_traits" and c r p ev h' v'
  proof -
    have sys': "system_inv h' (vs[i := v'])" using assign_eval_system [OF as sys i] .
    obtain h1 where "set_size tr h ?v c r p = Inr (h1, v')"
      using as by (auto simp: assign_def eval_source_def split: sum.splits)
    then have "m_cols v' = c \<and> m_rows v' = r \<and> m_planes v' = p"
      using set_size_system [OF sys i, of tr c r p] by auto
    then show ?thesis using system_addresses [OF sys'] own [OF sys'] by auto
  qed
  have g: "addresses_buffers h' (vs[i := v']) \<and>
           (no_overflow (m_cols (vs ! j)) (m_rows (vs ! j)) (m_planes (vs ! j)) \<longrightarrow> addressable h' v')"
    if jas: "j < length vs \<and> assign tr h ?v (view_source (vs ! j)) = Inr (h', v')"
    for tr :: "'a pixel_traits" and j h' v'
  proof -
    have j: "j < length vs" and as: "assign tr h ?v (view_source (vs ! j)) = Inr (h', v')"
      using jas by simp_all
    have sys': "system_inv h' (vs[i := v'])" using assign_view_system [OF as sys i j] .
    obtain h1 where "set_size tr h ?v (m_cols (vs ! j)) (m_rows (vs ! j)) (m_planes (vs ! j)) = Inr (h1, v')"
      using as by (auto simp: assign_def view_source_def cols_def rows_def planes_def split: sum.splits)
    then have "m_cols v' = m_cols (vs ! j) \<and> m_rows v' = m_rows (vs ! j) \<and> m_planes v' = m_planes (vs ! j)"
      using set_size_system [OF sys i, of tr "m_cols (vs ! j)" "m_rows (vs ! j)" "m_planes (vs ! j)"] by auto
    then show ?thesis using system_addresses [OF sys'] own [OF sys'] by auto
  qed
  have p: "\<exists>h' v'. assign tr h ?v (pixel_source c r p f) = Inr (h', v') \<and>
             addresses_buffers h' (vs[i := v']) \<and> addressable h' v'"
    if n: "no_overflow c r p" for tr :: "'a pixel_traits" and c r p f
  proof -
    obtain h' v' where s: "assign tr h ?v (pixel_source c r p f) = Inr (h', v')"
      and sys': "system_inv h' (vs[i := v'])"
      and ext: "m_cols v' = c" "m_rows v' = r" "m_planes v' = p"
      using assign_system [OF sys i n, of tr f] by auto
    show ?thesis using s system_addresses [OF sys'] own [OF sys'] ext n by auto
  qed
  have q: "\<exists>h' v'. assign tr h ?v (view_source (vs ! j)) = Inr (h', v') \<and>
             addresses_buffers h' (vs[i := v']) \<and> addressable h' v'"
    if jn: "j < length vs \<and> no_overflow (m_cols (vs ! j)) (m_rows (vs ! j)) (m_planes (vs ! j))"
    for tr :: "'a pixel_traits" and j
  proof -
    have j: "j < length vs" and n: "no_overflow (m_cols (vs ! j)) (m_rows (vs ! j)) (m_planes (vs ! j))"
      using jn by simp_all
    obtain h1 v1 where s: "set_size tr h ?v (m_cols (vs ! j)) (m_rows (vs ! j)) (m_planes (vs ! j)) = Inr (h1, v1)"
      using set_size_system [OF sys i] by blast
    obtain h' where as: "assign tr h ?v (view_source (vs ! j)) = Inr (h', v1)"
      using assign_view [OF sys i j n s] by blast
    have "addresses_buffers h' (vs[i := v1]) \<and> addressable h' v1"
      using g [OF conjI [OF j as]] n by simp
    then show ?thesis using as by blast
  qed
  have w: "addresses_buffers (fst (reset h ?v)) (vs[i := snd (reset h ?v)])"
    using reset_system [OF sys i] by (rule system_addresses)
  have x: "addresses_buffers h' vs"
    if "k < length vs \<and> write_pixel h (vs ! k) col row plane x = Inr h'" for k col row plane x h'
  proof -
    have "store h (call3 (vs ! k) col row plane) (Value x) = Inr h'"
      using that by (simp add: write_pixel_def)
    then have "system_inv h' vs" using sys by (rule store_system)
    then show ?thesis by (rule system_addresses)
  qed
  show ?thesis
    apply (intro conjI)
    subgoal using a by blast
    subgoal by (rule z)
    subgoal using c by blast
    subgoal by (rule d)
    subgoal using e by blast
    subgoal using f by blast
    subgoal using g by blast
    subgoal using p by blast
    subgoal using q by blast
    subgoal by (rule w)
    subgoal using x by blast
    done
qed

theorem in_range_addresses_buffer_witness:
  "system_inv (small_heap 1) [small_view, wrapped_view] \<and>
   no_overflow (m_cols small_view) (m_rows small_view) (m_planes small_view) \<and>
   in_range small_view 3 2 0 \<and>
   in_buffer (small_heap 1) small_view (call3 small_view 3 2 0) \<and>
   call3 small_view 3 2 0 = Ptr 0 11 \<and> no_overflow 2 2 1 \<and>
   (\<exists>h' v'. set_size int32_pixel (small_heap 1) small_view 2 2 1 = Inr (h', v') \<and>
      addresses_buffers h' [v', wrapped_view] \<and> addressable h' v')"
proof -
  have r: "in_range small_view 3 2 0" by (simp add: in_range_def small_view_def)
  have n: "no_overflow 2 2 1" by (simp add: no_overflow_def)
  have c: "call3 small_view 3 2 0 = Ptr 0 11"
    by (simp add: call3_def small_view_def ptr_add_def)
  have i: "0 < length [small_view, wrapped_view]" by simp
  note T = in_range_addresses_buffer [OF small_wrapped_system i]
  have T1: "\<forall>k<length [small_view, wrapped_view].
              no_overflow (m_cols ([small_view, wrapped_view] ! k)) (m_rows ([small_view, wrapped_view] ! k))
                (m_planes ([small_view, wrapped_view] ! k)) \<longrightarrow>
              (\<forall>col row plane. in_range ([small_view, wrapped_view] ! k) col row plane \<longrightarrow>
                 in_buffer (small_heap 1) ([small_view, wrapped_view] ! k)
                   (call3 ([small_view, wrapped_view] ! k) col row plane) \<and>
                 call3 ([small_view, wrapped_view] ! k) col row plane
                   = strided_address ([small_view, wrapped_view] ! k) (sint col) (sint row) (sint plane)) \<and>
              (\<forall>b blk. m_data ([small_view, wrapped_view] ! k) = Some b \<and> lookup (small_heap 1) b = Some blk \<longrightarrow>
                 length (elems blk)
                   = unat (m_cols ([small_view, wrapped_view] ! k)) * unat (m_rows ([small_view, wrapped_view] ! k)) *
                     unat (m_planes ([small_view, wrapped_view] ! k)))"
    using T by (rule conjunct1)
  have "(\<forall>col row plane. in_range small_view col row plane \<longrightarrow>
            in_buffer (small_heap 1) small_view (call3 small_view col row plane) \<and>
            call3 small_view col row plane
              = strided_address small_view (sint col) (sint row) (sint plane)) \<and>
         (\<forall>b blk. m_data small_view = Some b \<and> lookup (small_heap 1) b = Some blk \<longrightarrow>
            length (elems blk)
              = unat (m_cols small_view) * unat (m_rows small_view) * unat (m_planes small_view))"
    using T1 [rule_format, OF i, unfolded nth_Cons_0, OF small_example_no_overflow] .
  then have ib: "in_buffer (small_heap 1) small_view (call3 small_view 3 2 0)"
    using r by blast
  have T3: "\<forall>c r p. \<exists>h' v'. set_size int32_pixel (small_heap 1) ([small_view, wrapped_view] ! 0) c r p = Inr (h', v') \<and>
              addresses_buffers h' ([small_view, wrapped_view][0 := v']) \<and>
              (no_overflow c r p \<longrightarrow> addressable h' v')"
    using T [THEN conjunct2, THEN conjunct2, THEN conjunct1] by blast
  have ss: "\<exists>h' v'. set_size int32_pixel (small_heap 1) small_view 2 2 1 = Inr (h', v') \<and>
      addresses_buffers h' [v', wrapped_view] \<and> addressable h' v'"
    using T3 [rule_format, of 2 2 1] n by simp
  show ?thesis using small_wrapped_system small_example_no_overflow r n c ib ss by blast
qed

text \<open>C5 as stated fails: \<^verbatim>\<open>set_size(2147483649,2,1)\<close> on an empty view allocates
  \<open>2\<close> elements (the product modulo \<open>2 ^ 32\<close>), and the in-range coordinate \<open>(2,0,0)\<close>
  of the resulting view, which does own an array, maps to offset \<open>2\<close>, outside it.\<close>

theorem in_range_addresses_buffer_counterexample:
  "view_inv ([] :: 32 word heap) empty_view \<and>
   set_size int32_pixel [] empty_view 2147483649 2 1 =
     Inr ([Some \<lparr>use_count = 1, elems = [Value 0, Value 0]\<rparr>], overflow_view) \<and>
   m_data overflow_view = Some 0 \<and>
   in_range overflow_view 2 0 0 \<and> call3 overflow_view 2 0 0 = Ptr 0 2 \<and>
   \<not> in_buffer [Some \<lparr>use_count = 1, elems = [Value (0::32 word), Value 0]\<rparr>] overflow_view
         (call3 overflow_view 2 0 0) \<and>
   read_pixel [Some \<lparr>use_count = 1, elems = [Value (0::32 word), Value 0]\<rparr>] overflow_view 2 0 0
     = Inl UndefinedAccess"
proof -
  have "view_inv ([] :: 32 word heap) empty_view" by (rule view_inv_empty)
  moreover have "set_size int32_pixel [] empty_view 2147483649 2 1 =
     Inr ([Some \<lparr>use_count = 1, elems = [Value 0, Value 0]\<rparr>], overflow_view) \<and>
   m_data overflow_view = Some 0 \<and>
   in_range overflow_view 2 0 0 \<and> call3 overflow_view 2 0 0 = Ptr 0 2 \<and>
   \<not> in_buffer [Some \<lparr>use_count = 1, elems = [Value (0::32 word), Value 0]\<rparr>] overflow_view
         (call3 overflow_view 2 0 0) \<and>
   read_pixel [Some \<lparr>use_count = 1, elems = [Value (0::32 word), Value 0]\<rparr>] overflow_view 2 0 0
     = Inl UndefinedAccess"
    by code_simp
  ultimately show ?thesis by (rule conjI)
qed

text \<open>C6. \<^verbatim>\<open>operator()(col,row,plane)\<close> denotes the element at
  \<open>origin + col*col_stride + row*row_stride + plane*plane_stride\<close>, whatever the extent
  of the view is (there is no comparison with \<open>cols\<close>, \<open>rows\<close> or \<open>planes\<close>) and whatever
  the sign of the strides; the two-argument form is the three-argument form at plane 0.
  Reading through it yields the array element at that offset whenever the offset lies in
  the array.\<close>

theorem operator_call_strided_formula:
  "call3 v col row plane = strided_address v (sint col) (sint row) (sint plane) \<and>
   call2 v col row = call3 v col row 0 \<and>
   (m_origin v = Ptr b i \<and> lookup h b = Some blk \<and>
    0 \<le> i + (sint col * m_cstride v + sint row * m_rstride v + sint plane * m_pstride v) \<and>
    i + (sint col * m_cstride v + sint row * m_rstride v + sint plane * m_pstride v)
      < int (length (elems blk)) \<longrightarrow>
    read_pixel h v col row plane =
      Inr (elems blk ! nat (i + (sint col * m_cstride v + sint row * m_rstride v
                                   + sint plane * m_pstride v))))"
  by (cases "m_origin v")
    (simp_all add: call3_def call2_def strided_address_def read_pixel_def load_def
      ptr_add_def add.assoc)

theorem operator_call_strided_formula_witness:
  "m_origin mirrored_view = Ptr 0 2 \<and>
   lookup [Some \<lparr>use_count = 1, elems = [Value (10::32 word), Value 20, Value 30]\<rparr>] 0
     = Some \<lparr>use_count = 1, elems = [Value 10, Value 20, Value 30]\<rparr> \<and>
   read_pixel [Some \<lparr>use_count = 1, elems = [Value (10::32 word), Value 20, Value 30]\<rparr>]
     mirrored_view 2 5 0 = Inr (Value 10) \<and>
   call3 mirrored_view 2 5 0 = Ptr 0 0 \<and> call2 mirrored_view 2 5 = Ptr 0 0"
  using operator_call_strided_formula [of mirrored_view 2 5 0 0 2
      "[Some \<lparr>use_count = 1, elems = [Value (10::32 word), Value 20, Value 30]\<rparr>]"
      "\<lparr>use_count = 1, elems = [Value (10::32 word), Value 20, Value 30]\<rparr>"]
  by (simp add: mirrored_view_def lookup_def strided_address_def ptr_add_def)

text \<open>C7, as amended. For a view in a state the class can reach whose extent has a product
  below \<open>2 ^ 32\<close>, \<^verbatim>\<open>V = V\<close> through the rasterizing \<^verbatim>\<open>operator=\<close> returns with the
  heap and the view exactly as they were: the resize is skipped, every element is
  rewritten with its own value, and the temporary copy's handle is released again. The
  implicit copy assignment, which a plain \<^verbatim>\<open>V = V\<close> selects, leaves both unchanged as
  well.\<close>

theorem self_assignment_identity:
  assumes inv: "view_inv h v" and no: "no_overflow (m_cols v) (m_rows v) (m_planes v)"
  shows "(\<exists>h' v'. assign_self tr h v = Inr (h', v') \<and> h' = h \<and> v' = v \<and>
            cols v' = cols v \<and> rows v' = rows v \<and> planes v' = planes v \<and>
            (\<forall>col row plane. read_pixel h' v' col row plane = read_pixel h v col row plane)) \<and>
         copy_assign h v v = (h, v)"
proof -
  have s: "set_size tr h v (cols v) (rows v) (planes v) = Inr (h, v)"
    by (simp add: set_size_same cols_def rows_def planes_def)
  have inv1: "view_inv (sa_acquire h (m_data v)) v"
    using copy_construct_inv [OF inv] by (simp add: copy_construct_def)
  have "view_rasterize v v h = Inr h"
    using rasterize_self [OF inv1 no] acquire_release_id [OF inv]
    by (simp add: view_rasterize_def copy_construct_def destroy_def)
  then show ?thesis
    using s acquire_release_id [OF inv] by (simp add: assign_self_def copy_assign_def)
qed

theorem self_assignment_identity_witness:
  "view_inv (small_heap 1) small_view \<and>
   no_overflow (m_cols small_view) (m_rows small_view) (m_planes small_view) \<and>
   assign_self int32_pixel (small_heap 1) small_view = Inr (small_heap 1, small_view) \<and>
   read_pixel (small_heap 1) small_view 2 1 0 = Inr (Value 7)"
proof -
  have a: "view_inv (small_heap 1) small_view" using small_example_inv [of 0] by simp
  have r: "read_pixel (small_heap 1) small_view 2 1 0 = Inr (Value 7)" by code_simp
  show ?thesis
    using a small_example_no_overflow r
      self_assignment_identity [OF a small_example_no_overflow, of int32_pixel]
    by auto
qed

text \<open>C7 as stated fails for the view that \<^verbatim>\<open>set_size(65536,65536,1)\<close> leaves: the
  rasterization reads the in-range coordinate \<open>(0,0,0)\<close> through a null origin.\<close>

theorem self_assignment_identity_counterexample:
  "set_size int32_pixel [] empty_view 65536 65536 1 = Inr ([], wrapped_view) \<and>
   in_range wrapped_view 0 0 0 \<and>
   assign_self int32_pixel [] wrapped_view = Inl UndefinedAccess"
proof -
  have s: "set_size int32_pixel [] wrapped_view (cols wrapped_view) (rows wrapped_view)
             (planes wrapped_view) = Inr ([], wrapped_view)"
    by (simp add: set_size_def cols_def rows_def planes_def)
  have "rasterize_loop (\<lambda>h' c r p. load h' (strided_address wrapped_view c r p)) wrapped_view
          ([] :: 32 word heap) = Inl UndefinedAccess"
    by (rule rasterize_loop_first_fail)
       (simp_all add: wrapped_view_def strided_address_def ptr_add_def load_def)
  then have "view_rasterize wrapped_view wrapped_view ([] :: 32 word heap) = Inl UndefinedAccess"
    by (simp add: view_rasterize_def copy_construct_def sa_acquire_def wrapped_view_def)
  then have "assign_self int32_pixel [] wrapped_view = Inl UndefinedAccess"
    using s by (simp add: assign_self_def)
  moreover have "in_range wrapped_view 0 0 0" by (simp add: in_range_def wrapped_view_def)
  ultimately show ?thesis using set_size_wrapped by simp
qed

text \<open>C8. When the element type has \<open>k \<noteq> 1\<close> interleaved channels and the foreign
  image has a plane count other than \<open>k\<close>, \<^verbatim>\<open>operator=( vil_image_view const& )\<close> fails
  with an argument error and leaves heap and view as they were. Moreover, unless the
  library copy routine itself raises one, this is the only way the operator ends with an
  argument error: the assertion of \<^verbatim>\<open>vil_view\<close> cannot fail after the resize.\<close>

theorem vil_assign_plane_mismatch:
  "(num_channels tr \<noteq> 1 \<and> nplanes src \<noteq> num_channels tr \<longrightarrow>
      assign_vil vcopy tr h v src = Failed ArgumentErr h v) \<and>
   ((\<forall>w g. vcopy src w g \<noteq> Inl ArgumentErr) \<and>
    assign_vil vcopy tr h v src = Failed ArgumentErr h' v' \<longrightarrow>
      h' = h \<and> v' = v \<and> num_channels tr \<noteq> 1 \<and> nplanes src \<noteq> num_channels tr)"
proof -
  have a: "num_channels tr \<noteq> 1 \<and> nplanes src \<noteq> num_channels tr \<Longrightarrow>
      assign_vil vcopy tr h v src = Failed ArgumentErr h v"
    by (simp add: assign_vil_def)
  have b: "h' = h \<and> v' = v \<and> num_channels tr \<noteq> 1 \<and> nplanes src \<noteq> num_channels tr"
    if nv: "\<forall>w g. vcopy src w g \<noteq> Inl ArgumentErr"
      and f: "assign_vil vcopy tr h v src = Failed ArgumentErr h' v'"
  proof (cases "num_channels tr \<noteq> 1 \<and> nplanes src \<noteq> num_channels tr")
    case True
    then show ?thesis using f by (simp add: assign_vil_def)
  next
    case False
    let ?p = "if num_channels tr = 1 then nplanes src else 1"
    show ?thesis
    proof (cases "set_size tr h v (ni src) (nj src) ?p")
      case (Inl e)
      have "e \<noteq> ArgumentErr"
        using Inl
        by (cases "ni src = m_cols v \<and> nj src = m_rows v \<and> ?p = m_planes v")
           (auto simp: set_size_def Let_def memset_zero_def
              split: if_splits prod.splits sum.splits ptr.splits option.splits)
      then show ?thesis using f False Inl by (simp add: assign_vil_def Let_def)
    next
      case (Inr hv)
      obtain h1 v1 where hv: "hv = (h1, v1)" by (cases hv)
      have pl: "m_planes v1 = ?p" using Inr hv set_size_Inr_planes by blast
      have "m_planes v1 = 1 \<or> num_channels tr = 1" using pl by (auto split: if_splits)
      then obtain w where w: "vil_view tr v1 = Inr w" by (auto simp: vil_view_def Let_def)
      show ?thesis
        using f False Inr hv w nv
        by (auto simp: assign_vil_def Let_def split: sum.splits)
    qed
  qed
  show ?thesis using a b by blast
qed

theorem vil_assign_plane_mismatch_witness:
  "(num_channels rgb_pixel \<noteq> 1 \<and> nplanes grey_vil \<noteq> num_channels rgb_pixel) \<and>
   assign_vil (\<lambda>s w g. Inr g) rgb_pixel [] empty_view grey_vil = Failed ArgumentErr [] empty_view"
  using vil_assign_plane_mismatch [of rgb_pixel grey_vil "\<lambda>s w g. Inr g" "[]" empty_view "[]" empty_view]
  by (simp add: rgb_pixel_def grey_vil_def)

text \<open>C9. \<^verbatim>\<open>set_size\<close> computes the element count \<open>cols*rows*planes\<close> in 32-bit unsigned
  arithmetic. When the mathematical product is \<open>2 ^ 32\<close> or more, the view reports the
  requested extent, and either the product is a multiple of \<open>2 ^ 32\<close> and the view has no
  array and a null origin (nothing was allocated), or its array holds the product modulo
  \<open>2 ^ 32\<close> elements, fewer than the extent describes.\<close>

theorem set_size_product_wraps:
  assumes "view_inv h v" and "2 ^ 32 \<le> unat c * unat r * unat p"
  shows "\<exists>h' v'. set_size tr h v c r p = Inr (h', v') \<and>
           cols v' = c \<and> rows v' = r \<and> planes v' = p \<and>
           (case m_data v' of
              None \<Rightarrow> (unat c * unat r * unat p) mod 2 ^ 32 = 0 \<and> m_origin v' = Null \<and>
                        length h' = length h
            | Some b \<Rightarrow> (unat c * unat r * unat p) mod 2 ^ 32 \<noteq> 0 \<and>
                (\<exists>blk. lookup h' b = Some blk \<and>
                   length (elems blk) = (unat c * unat r * unat p) mod 2 ^ 32 \<and>
                   length (elems blk) < unat c * unat r * unat p))"
proof -
  obtain h' v' where s: "set_size tr h v c r p = Inr (h', v')" and inv: "view_inv h' v'"
    and ext: "m_cols v' = c" "m_rows v' = r" "m_planes v' = p"
    and len: "m_data v' = None \<longrightarrow> length h' = length h"
    using set_size_result [OF assms(1), of tr c r p] by auto
  have lt: "(unat c * unat r * unat p) mod 2 ^ 32 < unat c * unat r * unat p"
  proof -
    have "(unat c * unat r * unat p) mod 2 ^ 32 < (2::nat) ^ 32" by simp
    then show ?thesis using assms(2) by linarith
  qed
  have z: "(c * r * p = 0) = ((unat c * unat r * unat p) mod 2 ^ 32 = 0)"
    using unat_prod3 [of c r p] by (simp add: unat_eq_0 [symmetric])
  show ?thesis
  proof (cases "m_data v'")
    case None
    then show ?thesis
      using s inv ext len z
      by (simp add: view_inv_def cols_def rows_def planes_def sa_get_def)
  next
    case (Some b)
    then show ?thesis
      using s inv ext z lt unat_prod3 [of c r p]
      by (auto simp: view_inv_def cols_def rows_def planes_def split: option.splits)
  qed
qed

theorem set_size_product_wraps_witness:
  "view_inv ([] :: 32 word heap) empty_view \<and>
   (2::nat) ^ 32 \<le> unat (2147483649::u32) * unat (2::u32) * unat (1::u32) \<and>
   (\<exists>h' v'. set_size int32_pixel [] empty_view 2147483649 2 1 = Inr (h', v') \<and>
      cols v' = 2147483649 \<and> rows v' = 2 \<and> planes v' = 1 \<and>
      (\<exists>b blk. m_data v' = Some b \<and> lookup h' b = Some blk \<and> length (elems blk) = 2))"
proof -
  have a: "view_inv ([] :: 32 word heap) empty_view" by (rule view_inv_empty)
  have b: "(2::nat) ^ 32 \<le> unat (2147483649::u32) * unat (2::u32) * unat (1::u32)" by simp
  show ?thesis
    using a b set_size_product_wraps [OF a b, of int32_pixel]
    by (auto split: option.splits)
qed

text \<open>C10, as amended. A call \<^verbatim>\<open>set_size(cols,rows,planes)\<close> with at least one zero
  argument, other than \<^verbatim>\<open>set_size(0,0,0)\<close> on the empty view, releases the array,
  leaves a null origin, stores the requested extents as they are and sets the strides to
  \<open>1\<close>, \<open>cols\<close> and the 32-bit product \<open>rows*cols\<close>; \<^verbatim>\<open>reset\<close> gives the all-zero empty
  view instead.\<close>

theorem set_size_zero_volume:
  assumes "view_inv h v" and "c = 0 \<or> r = 0 \<or> p = 0"
    and "\<not> (v = empty_view \<and> c = 0 \<and> r = 0 \<and> p = 0)"
  shows "set_size tr h v c r p =
           Inr (sa_release h (m_data v),
                \<lparr>m_data = None, m_cols = c, m_rows = r, m_planes = p, m_origin = Null,
                 m_cstride = 1, m_rstride = uint c, m_pstride = uint (r * c)\<rparr>) \<and>
         snd (reset h v) = empty_view"
proof -
  have z: "c * r * p = 0" using assms(2) by (rule word3_zero)
  have "set_size tr h v c r p =
           Inr (sa_release h (m_data v),
                \<lparr>m_data = None, m_cols = c, m_rows = r, m_planes = p, m_origin = Null,
                 m_cstride = 1, m_rstride = uint c, m_pstride = uint (r * c)\<rparr>)"
  proof (cases "c = m_cols v \<and> r = m_rows v \<and> p = m_planes v")
    case True
    have ne: "v \<noteq> empty_view"
      using True assms(3) by (auto simp: empty_view_def)
    have d: "m_data v = None"
      using assms(1) True z by (auto simp: view_inv_def split: option.splits)
    have v: "v = \<lparr>m_data = None, m_cols = c, m_rows = r, m_planes = p, m_origin = Null,
                 m_cstride = 1, m_rstride = uint c, m_pstride = uint (r * c)\<rparr>"
      using assms(1) True ne d by (intro view_eqI) (simp_all add: view_inv_def sa_get_def)
    show ?thesis
      using True d v by (simp add: set_size_same sa_release_def)
  next
    case False
    show ?thesis by (simp add: set_size_zero [OF False z])
  qed
  then show ?thesis by (simp add: reset_def empty_view_def)
qed

theorem set_size_zero_volume_witness:
  "view_inv ([] :: 32 word heap) empty_view \<and> ((5::u32) = 0 \<or> (0::u32) = 0 \<or> (1::u32) = 0) \<and>
   \<not> (empty_view = empty_view \<and> (5::u32) = 0 \<and> (0::u32) = 0 \<and> (1::u32) = 0) \<and>
   set_size int32_pixel [] empty_view 5 0 1 =
     Inr ([], \<lparr>m_data = None, m_cols = 5, m_rows = 0, m_planes = 1, m_origin = Null,
               m_cstride = 1, m_rstride = 5, m_pstride = 0\<rparr>)"
proof -
  have a: "view_inv ([] :: 32 word heap) empty_view" by (rule view_inv_empty)
  have b: "(5::u32) = 0 \<or> (0::u32) = 0 \<or> (1::u32) = 0" by simp
  have c: "\<not> (empty_view = empty_view \<and> (5::u32) = 0 \<and> (0::u32) = 0 \<and> (1::u32) = 0)" by simp
  show ?thesis
    using a set_size_zero_volume [OF a b c, of int32_pixel]
    by (simp add: sa_release_def empty_view_def)
qed

text \<open>C10 as stated fails for \<^verbatim>\<open>set_size(0,0,0)\<close> on the empty view: the extent is the
  current one, the call returns at once, and the column stride stays \<open>0\<close>.\<close>

theorem set_size_zero_on_empty_counterexample:
  "set_size int32_pixel [] empty_view 0 0 0 = Inr ([], empty_view) \<and>
   m_cstride empty_view = 0 \<and> m_cstride empty_view \<noteq> 1"
  by (simp add: set_size_def empty_view_def)

end
